theory Spec2Isabelle
  imports Main "HOL-Library.AList"
begin

section \<open>Data model of the event scheduler\<close>

text \<open>
  The embedding follows the class \<^verbatim>\<open>EventScheduler\<close> of \<^verbatim>\<open>src/eventhandler.ts\<close>.

  \<^item> JavaScript numbers (timestamps of \<^verbatim>\<open>Date.now()\<close>, durations, delays) are
    integers of milliseconds; fractional values, NaN and infinities are not modelled.
  \<^item> Event objects are mutable and shared between the event table, the closure of
    a pending timer and a suspended \<^verbatim>\<open>runEvent\<close>. They live in an explicit store
    (\<open>heap\<close>): a reference is an index, a new object is appended, and no object is
    ever freed, so every reference the program holds is a valid index.
  \<^item> A \<^verbatim>\<open>NodeJS.Timeout\<close> is an index into the list of all timers created so far;
    the entry is \<open>Some (r, d)\<close> while the timer is pending (its callback will call
    \<^verbatim>\<open>runEvent\<close> on the object \<open>r\<close>, after delay \<open>d\<close>) and \<open>None\<close> once
    it has fired or has been cleared.
  \<^item> The JavaScript \<^verbatim>\<open>Map\<close> of events is an association list in insertion order
    with distinct keys: \<^verbatim>\<open>set\<close> replaces in place or appends, \<^verbatim>\<open>delete\<close>
    removes.
  \<^item> Handlers are supplied by the caller. The registry is the list of registered
    names; what a handler does is a sequence of further operations on the
    scheduler, between the two halves of \<^verbatim>\<open>runEvent\<close>.
\<close>

datatype EventStatus = Scheduled | Running | Done | Paused | Resuming

text \<open>
  JavaScript values. The first six constructors are the values that \<^verbatim>\<open>JSON.parse\<close>
  returns (an object has its properties in order). The others stand for the values of
  \<^verbatim>\<open>params: any\<close> that \<^verbatim>\<open>JSON.stringify\<close> does not write back as they are:
  \<^verbatim>\<open>undefined\<close>, \<^verbatim>\<open>NaN\<close> (and the infinities), a \<^verbatim>\<open>Date\<close> with its ISO
  string, a \<^verbatim>\<open>BigInt\<close>, a function, and an object that contains itself.
\<close>

datatype jsvalue =
    JNull
  | JBool bool
  | JNum int
  | JStr string
  | JArr "jsvalue list"
  | JObj "(string \<times> jsvalue) list"
  | JUndefined
  | JNaN
  | JDate string
  | JBigInt int
  | JFunction
  | JCyclic

record Event =
  event_id :: string
  lookupName :: string
  params :: jsvalue
  status :: EventStatus
  addedAtTime :: int
  remainingTime :: int
  duration :: int
  autoRepeat :: bool
  jobId :: "nat option"

record scheduler =
  heap :: "Event list"
  timers :: "(nat \<times> int) option list"
  eventMap :: "(string \<times> nat) list"
  callbackMap :: "string list"
  sched_status :: EventStatus
  executing :: "nat list"

text \<open>
  \<open>sched_status\<close> is the private field \<^verbatim>\<open>status\<close> of the class. \<open>executing\<close>
  lists the objects whose handler has been started by \<^verbatim>\<open>runEvent\<close> and has not
  completed yet: the suspended continuations of \<^verbatim>\<open>runEvent\<close>.
\<close>

datatype error =
    DuplicateHandler
  | UnknownHandler
  | MissingHandler
  | SyntaxError
  | TypeError

text \<open>The constructor: both maps empty, the scheduler starts paused.\<close>

definition init :: scheduler where
  "init = \<lparr>heap = [], timers = [], eventMap = [], callbackMap = [],
            sched_status = Paused, executing = []\<rparr>"

subsection \<open>Store and timer primitives\<close>

definition modify :: "nat \<Rightarrow> (Event \<Rightarrow> Event) \<Rightarrow> scheduler \<Rightarrow> scheduler" where
  "modify r f s = s\<lparr>heap := (heap s)[r := f (heap s ! r)]\<rparr>"

definition allocate :: "Event \<Rightarrow> scheduler \<Rightarrow> nat \<times> scheduler" where
  "allocate e s = (length (heap s), s\<lparr>heap := heap s @ [e]\<rparr>)"

definition setTimeout :: "nat \<Rightarrow> int \<Rightarrow> scheduler \<Rightarrow> nat \<times> scheduler" where
  "setTimeout r d s = (length (timers s), s\<lparr>timers := timers s @ [Some (r, d)]\<rparr>)"

definition clearTimeout :: "nat \<Rightarrow> scheduler \<Rightarrow> scheduler" where
  "clearTimeout h s = s\<lparr>timers := (timers s)[h := None]\<rparr>"

text \<open>The event stored under an id, by value (\<^verbatim>\<open>eventMap.get(id)\<close> dereferenced).\<close>

definition lookup_event :: "scheduler \<Rightarrow> string \<Rightarrow> Event option" where
  "lookup_event s i = map_option (\<lambda>r. heap s ! r) (map_of (eventMap s) i)"

subsection \<open>Operations\<close>

definition registerCallback :: "string \<Rightarrow> scheduler \<Rightarrow> (error + unit) \<times> scheduler" where
  "registerCallback name s =
     (if name \<in> set (callbackMap s) then (Inl DuplicateHandler, s)
      else (Inr (), s\<lparr>callbackMap := callbackMap s @ [name]\<rparr>))"

definition removeEvent :: "string \<Rightarrow> scheduler \<Rightarrow> scheduler" where
  "removeEvent i s =
     (case map_of (eventMap s) i of
        None \<Rightarrow> s
      | Some r \<Rightarrow>
          let s1 = (case jobId (heap s ! r) of
                      Some h \<Rightarrow> clearTimeout h s
                    | None \<Rightarrow> s)
          in s1\<lparr>eventMap := AList.delete i (eventMap s1)\<rparr>)"

text \<open>
  \<^verbatim>\<open>scheduleEvent(event, delay?)\<close>: \<open>r\<close> is the event object, \<open>delay\<close> is
  \<open>None\<close> when the argument is omitted. The caller evaluates the argument before the
  call, so a delay read from \<^verbatim>\<open>event.remainingTime\<close> is the value before the reset
  of the second statement.
\<close>

definition scheduleEvent :: "nat \<Rightarrow> int option \<Rightarrow> scheduler \<Rightarrow> scheduler" where
  "scheduleEvent r delay s =
     (let s1 = (if map_of (eventMap s) (event_id (heap s ! r)) \<noteq> None
                then removeEvent (event_id (heap s ! r)) s else s);
          s2 = (if remainingTime (heap s1 ! r) \<le> 0
                then modify r (\<lambda>e. e\<lparr>remainingTime := duration e\<rparr>) s1 else s1);
          timeToRun = (case delay of Some d \<Rightarrow> d | None \<Rightarrow> remainingTime (heap s2 ! r));
          s3 = (if sched_status s2 = Paused
                then modify r (\<lambda>e. e\<lparr>status := Paused\<rparr>) s2
                else (let s4 = modify r (\<lambda>e. e\<lparr>status := Scheduled\<rparr>) s2;
                          (h, s5) = setTimeout r timeToRun s4
                      in modify r (\<lambda>e. e\<lparr>jobId := Some h\<rparr>) s5))
      in s3\<lparr>eventMap := AList.update (event_id (heap s3 ! r)) r (eventMap s3)\<rparr>)"

text \<open>
  \<^verbatim>\<open>addEvent\<close>: the id is always supplied (the default \<^verbatim>\<open>nanoid()\<close> is the
  caller's generator); \<open>now\<close> is the reading of \<^verbatim>\<open>Date.now()\<close>.
\<close>

definition addEvent ::
  "int \<Rightarrow> string \<Rightarrow> string \<Rightarrow> jsvalue \<Rightarrow> int \<Rightarrow> bool \<Rightarrow> scheduler \<Rightarrow> (error + string) \<times> scheduler" where
  "addEvent now i name ps d rep s =
     (if name \<notin> set (callbackMap s) then (Inl UnknownHandler, s)
      else (let (r, s1) = allocate
                  \<lparr>event_id = i, lookupName = name, params = ps,
                   status = (if sched_status s = Paused then Paused else Scheduled),
                   addedAtTime = now, remainingTime = d, duration = d,
                   autoRepeat = rep, jobId = None\<rparr> s
            in (Inr i, scheduleEvent r None s1)))"

definition eventIsScheduled :: "string \<Rightarrow> scheduler \<Rightarrow> bool" where
  "eventIsScheduled i s =
     (case lookup_event s i of
        None \<Rightarrow> False
      | Some e \<Rightarrow> status e = Scheduled \<or> status e = Running \<or> status e = Paused)"

definition pauseEvent :: "int \<Rightarrow> string \<Rightarrow> scheduler \<Rightarrow> scheduler" where
  "pauseEvent now i s =
     (case map_of (eventMap s) i of
        None \<Rightarrow> s
      | Some r \<Rightarrow>
          if status (heap s ! r) \<noteq> Scheduled then s
          else (case jobId (heap s ! r) of
                  None \<Rightarrow> s
                | Some h \<Rightarrow>
                    modify r (\<lambda>e. e\<lparr>remainingTime := remainingTime e - (now - addedAtTime e),
                                     status := Paused, jobId := None\<rparr>)
                      (clearTimeout h s)))"

definition resumeEvent :: "int \<Rightarrow> string \<Rightarrow> scheduler \<Rightarrow> scheduler" where
  "resumeEvent now i s =
     (case map_of (eventMap s) i of
        None \<Rightarrow> s
      | Some r \<Rightarrow>
          if status (heap s ! r) \<noteq> Paused then s
          else (let s1 = modify r (\<lambda>e. e\<lparr>status := Scheduled, addedAtTime := now\<rparr>) s
                in scheduleEvent r (Some (remainingTime (heap s1 ! r))) s1))"

text \<open>
  \<^verbatim>\<open>pauseAll\<close> and \<^verbatim>\<open>resumeAll\<close> call \<^verbatim>\<open>Date.now()\<close> once for each event they
  touch: \<open>clock i\<close> is the reading at the event with id \<open>i\<close>. \<open>pauseAll\<close> is the
  loop of the method; the method then polls \<^verbatim>\<open>waitForIdle\<close> and returns at the first
  poll at which \<open>waitForIdle_busy\<close> is false, which only other steps of the
  scheduler (handlers completing, events being removed) can bring about: in a run, they
  are the actions that follow the \<open>PauseAll\<close> action.
\<close>

definition pauseAll :: "(string \<Rightarrow> int) \<Rightarrow> scheduler \<Rightarrow> scheduler" where
  "pauseAll clock s = fold (\<lambda>i. pauseEvent (clock i) i) (map fst (eventMap s)) s"

definition waitForIdle_busy :: "scheduler \<Rightarrow> bool" where
  "waitForIdle_busy s = list_ex (\<lambda>(i, r). status (heap s ! r) = Running) (eventMap s)"

definition removeAllByType :: "string \<Rightarrow> scheduler \<Rightarrow> scheduler" where
  "removeAllByType ty s =
     fold removeEvent
       (map fst (filter (\<lambda>(i, r). lookupName (heap s ! r) = ty) (eventMap s))) s"

text \<open>
  \<^verbatim>\<open>resumeAll\<close> sets the global status, takes the ids of the table and then
  suspends at each \<^verbatim>\<open>await this.resumeEvent(id)\<close>. \<open>resumeAll_begin\<close> is the
  part before the loop. \<open>resumeAll_uninterrupted\<close> is the whole method when
  nothing else runs while it is suspended; the method with what runs in between is
  \<open>resumeAll\<close> below.
\<close>

definition resumeAll_begin :: "scheduler \<Rightarrow> scheduler" where
  "resumeAll_begin s = s\<lparr>sched_status := Running\<rparr>"

definition resumeAll_uninterrupted :: "(string \<Rightarrow> int) \<Rightarrow> scheduler \<Rightarrow> scheduler" where
  "resumeAll_uninterrupted clock s =
     (let s1 = s\<lparr>sched_status := Running\<rparr>
      in fold (\<lambda>i. resumeEvent (clock i) i) (map fst (eventMap s1)) s1)"

text \<open>
  \<^verbatim>\<open>runEvent\<close> suspends at \<^verbatim>\<open>await callback.execute(...)\<close>. \<open>runEvent_begin\<close> is
  the part before the handler runs, \<open>runEvent_finish\<close> the part after it has
  completed; \<open>now\<close> is the clock reading of the \<^verbatim>\<open>addEvent\<close> call there.
\<close>

definition runEvent_begin :: "nat \<Rightarrow> scheduler \<Rightarrow> (error + unit) \<times> scheduler" where
  "runEvent_begin r s =
     (if lookupName (heap s ! r) \<notin> set (callbackMap s) then (Inl MissingHandler, s)
      else (Inr (), (modify r (\<lambda>e. e\<lparr>status := Running\<rparr>) s)\<lparr>executing := executing s @ [r]\<rparr>))"

definition runEvent_finish :: "int \<Rightarrow> nat \<Rightarrow> scheduler \<Rightarrow> (error + unit) \<times> scheduler" where
  "runEvent_finish now r s =
     (let s1 = modify r (\<lambda>e. e\<lparr>status := Done, jobId := None\<rparr>) s;
          e = heap s1 ! r
      in if autoRepeat e
         then (case addEvent now (event_id e) (lookupName e) (params e) (duration e) True s1 of
                 (Inl err, s2) \<Rightarrow> (Inl err, s2)
               | (Inr _, s2) \<Rightarrow> (Inr (), s2))
         else (Inr (), removeEvent (event_id e) s1))"

definition executeImmediately :: "string \<Rightarrow> scheduler \<Rightarrow> (error + unit) \<times> scheduler" where
  "executeImmediately i s =
     (case map_of (eventMap s) i of
        None \<Rightarrow> (Inr (), s)
      | Some r \<Rightarrow>
          if status (heap s ! r) \<noteq> Scheduled then (Inr (), s)
          else (let s1 = (case jobId (heap s ! r) of
                            Some h \<Rightarrow> modify r (\<lambda>e. e\<lparr>jobId := None\<rparr>) (clearTimeout h s)
                          | None \<Rightarrow> s)
                in runEvent_begin r s1))"

subsection \<open>Serialization\<close>

text \<open>
  A serialized string is represented by the value that \<^verbatim>\<open>JSON.parse\<close> returns for
  it. \<open>to_json v\<close> is that value for the string \<^verbatim>\<open>JSON.stringify(v)\<close>:
  \<^verbatim>\<open>NaN\<close> is written as \<^verbatim>\<open>null\<close>, a \<^verbatim>\<open>Date\<close> as its string, a property
  whose value is \<^verbatim>\<open>undefined\<close> or a function is left out (\<open>json_omitted\<close>),
  and such an element of an array is written as \<^verbatim>\<open>null\<close>. \<^verbatim>\<open>JSON.stringify\<close>
  throws a \<^verbatim>\<open>TypeError\<close> on a value that contains a \<^verbatim>\<open>BigInt\<close> or itself
  (\<open>json_throws\<close>).
\<close>

fun json_omitted :: "jsvalue \<Rightarrow> bool" where
  "json_omitted JUndefined = True"
| "json_omitted JFunction = True"
| "json_omitted _ = False"

fun json_throws :: "jsvalue \<Rightarrow> bool" where
  "json_throws (JBigInt n) = True"
| "json_throws JCyclic = True"
| "json_throws (JArr xs) = list_ex json_throws xs"
| "json_throws (JObj kvs) = list_ex json_throws (map snd kvs)"
| "json_throws _ = False"

fun to_json :: "jsvalue \<Rightarrow> jsvalue" where
  "to_json JNaN = JNull"
| "to_json (JDate txt) = JStr txt"
| "to_json (JArr xs) = JArr (map (\<lambda>x. if json_omitted x then JNull else to_json x) xs)"
| "to_json (JObj kvs) =
     JObj (map (\<lambda>(k, v). (k, to_json v)) (filter (\<lambda>(k, v). \<not> json_omitted v) kvs))"
| "to_json v = v"

fun status_name :: "EventStatus \<Rightarrow> string" where
  "status_name Scheduled = ''scheduled''"
| "status_name Running = ''running''"
| "status_name Done = ''done''"
| "status_name Paused = ''paused''"
| "status_name Resuming = ''resuming''"

definition status_of_name :: "string \<Rightarrow> EventStatus option" where
  "status_of_name n =
     (if n = ''scheduled'' then Some Scheduled
      else if n = ''running'' then Some Running
      else if n = ''done'' then Some Done
      else if n = ''paused'' then Some Paused
      else if n = ''resuming'' then Some Resuming
      else None)"

text \<open>
  What the string written for one event parses to: the object without \<^verbatim>\<open>jobId\<close>,
  its properties in the order of the literal in \<^verbatim>\<open>addEvent\<close>, without
  \<^verbatim>\<open>params\<close> when that value is omitted.
\<close>

definition json_of_event :: "Event \<Rightarrow> jsvalue" where
  "json_of_event e =
     JObj ([(''id'', JStr (event_id e)),
            (''lookupName'', JStr (lookupName e))]
           @ (if json_omitted (params e) then [] else [(''params'', to_json (params e))])
           @ [(''status'', JStr (status_name (status e))),
              (''addedAtTime'', JNum (addedAtTime e)),
              (''remainingTime'', JNum (remainingTime e)),
              (''duration'', JNum (duration e)),
              (''autoRepeat'', JBool (autoRepeat e))])"

text \<open>
  \<open>saveEvents\<close>: \<open>Inl TypeError\<close> when \<^verbatim>\<open>JSON.stringify\<close> throws, and else
  the value that the returned string parses to.
\<close>

definition saveEvents :: "scheduler \<Rightarrow> error + jsvalue" where
  "saveEvents s =
     (if list_ex (\<lambda>(i, r). json_throws (params (heap s ! r))) (eventMap s)
      then Inl TypeError
      else Inr (JArr (map (\<lambda>(i, r). json_of_event (heap s ! r)) (eventMap s))))"

text \<open>Property access on a parsed value; only an object has named properties.\<close>

definition json_field :: "jsvalue \<Rightarrow> string \<Rightarrow> jsvalue option" where
  "json_field j k = (case j of JObj kvs \<Rightarrow> map_of kvs k | _ \<Rightarrow> None)"

definition get_str :: "jsvalue \<Rightarrow> string \<Rightarrow> string option" where
  "get_str j k = (case json_field j k of Some (JStr x) \<Rightarrow> Some x | _ \<Rightarrow> None)"

definition get_num :: "jsvalue \<Rightarrow> string \<Rightarrow> int option" where
  "get_num j k = (case json_field j k of Some (JNum x) \<Rightarrow> Some x | _ \<Rightarrow> None)"

definition get_bool :: "jsvalue \<Rightarrow> string \<Rightarrow> bool option" where
  "get_bool j k = (case json_field j k of Some (JBool x) \<Rightarrow> Some x | _ \<Rightarrow> None)"

text \<open>
  \<^verbatim>\<open>loadEvents\<close> declares the parsed elements as \<^verbatim>\<open>Omit<Event, "jobId">\<close> and checks
  nothing. \<open>event_of_json\<close> reads an element that has this type: the seven typed
  properties, each of its declared type, and \<^verbatim>\<open>params\<close>, which is
  \<^verbatim>\<open>undefined\<close> when the element has no such property.
\<close>

definition event_of_json :: "jsvalue \<Rightarrow> Event option" where
  "event_of_json j =
     (case get_str j ''id'' of None \<Rightarrow> None | Some i \<Rightarrow>
      case get_str j ''lookupName'' of None \<Rightarrow> None | Some n \<Rightarrow>
      case Option.bind (get_str j ''status'') status_of_name of None \<Rightarrow> None | Some st \<Rightarrow>
      case get_num j ''addedAtTime'' of None \<Rightarrow> None | Some a \<Rightarrow>
      case get_num j ''remainingTime'' of None \<Rightarrow> None | Some rt \<Rightarrow>
      case get_num j ''duration'' of None \<Rightarrow> None | Some d \<Rightarrow>
      case get_bool j ''autoRepeat'' of None \<Rightarrow> None | Some rep \<Rightarrow>
        Some \<lparr>event_id = i, lookupName = n,
              params = (case json_field j ''params'' of None \<Rightarrow> JUndefined | Some p \<Rightarrow> p),
              status = st, addedAtTime = a, remainingTime = rt, duration = d,
              autoRepeat = rep, jobId = None\<rparr>)"

text \<open>
  \<open>unprintable v\<close>: the string concatenation \<^verbatim>\<open>"remains " + v\<close> throws a
  \<^verbatim>\<open>TypeError\<close>. For a parsed value this is the case of an object with a property
  named \<^verbatim>\<open>toString\<close> (it hides the method of the prototype and is not a function,
  and the inherited \<^verbatim>\<open>valueOf\<close> returns the object), and of an array that contains
  such an element, since an array is printed by printing its elements.
\<close>

fun unprintable :: "jsvalue \<Rightarrow> bool" where
  "unprintable (JObj kvs) = (map_of kvs ''toString'' \<noteq> None)"
| "unprintable (JArr xs) = list_ex unprintable xs"
| "unprintable _ = False"

text \<open>
  The body of the \<^verbatim>\<open>forEach\<close>. An element whose \<^verbatim>\<open>status\<close> is neither
  \<^verbatim>\<open>"scheduled"\<close> nor \<^verbatim>\<open>"paused"\<close> (any other value, or no such property) is
  skipped. For an element that passes the test, the \<^verbatim>\<open>console.log\<close> of line 239
  first prints its \<^verbatim>\<open>remainingTime\<close>, which throws when that value is
  \<open>unprintable\<close>; otherwise the element is stored as it is. The result is
  \<open>None\<close> when the stored element does not have the declared type, since the record
  \<open>Event\<close> cannot hold it.
\<close>

definition load_record :: "jsvalue \<Rightarrow> scheduler \<Rightarrow> ((error + unit) \<times> scheduler) option" where
  "load_record j s =
     (if json_field j ''status'' = Some (JStr ''scheduled'')
         \<or> json_field j ''status'' = Some (JStr ''paused'')
      then (if (case json_field j ''remainingTime'' of
                  Some v \<Rightarrow> unprintable v
                | None \<Rightarrow> False)
            then Some (Inl TypeError, s)
            else (case event_of_json j of
                    None \<Rightarrow> None
                  | Some e \<Rightarrow>
                      let (r, s1) = allocate (e\<lparr>jobId := None\<rparr>) s
                      in Some (Inr (), scheduleEvent r (Some (remainingTime e)) s1)))
      else Some (Inr (), s))"

text \<open>
  The \<^verbatim>\<open>forEach\<close>: an exception thrown at an element ends the loop and leaves
  \<open>loadEvents\<close>, with the elements before it stored.
\<close>

fun load_records :: "jsvalue list \<Rightarrow> scheduler \<Rightarrow> ((error + unit) \<times> scheduler) option" where
  "load_records [] s = Some (Inr (), s)"
| "load_records (j # js) s =
     (case load_record j s of
        None \<Rightarrow> None
      | Some (Inl e, s1) \<Rightarrow> Some (Inl e, s1)
      | Some (Inr u, s1) \<Rightarrow> load_records js s1)"

text \<open>
  \<open>loadEvents\<close> takes \<open>None\<close> for a string that \<^verbatim>\<open>JSON.parse\<close> rejects (it
  throws a \<^verbatim>\<open>SyntaxError\<close>) and \<open>Some v\<close> for a string that parses to \<open>v\<close>.
  A value that is not an array has no method \<^verbatim>\<open>forEach\<close>, and the call throws a
  \<^verbatim>\<open>TypeError\<close>.
\<close>

definition loadEvents :: "jsvalue option \<Rightarrow> scheduler \<Rightarrow> ((error + unit) \<times> scheduler) option" where
  "loadEvents data s =
     (case data of
        None \<Rightarrow> Some (Inl SyntaxError, s)
      | Some (JArr js) \<Rightarrow> load_records js s
      | Some _ \<Rightarrow> Some (Inl TypeError, s))"

text \<open>
  \<^verbatim>\<open>t.loadEvents(s.saveEvents())\<close>: when \<open>saveEvents\<close> throws, \<open>loadEvents\<close>
  is not called.
\<close>

definition load_saved :: "scheduler \<Rightarrow> scheduler \<Rightarrow> ((error + unit) \<times> scheduler) option" where
  "load_saved s t =
     (case saveEvents s of
        Inl e \<Rightarrow> Some (Inl e, t)
      | Inr v \<Rightarrow> loadEvents (Some v) t)"

subsection \<open>Runs of the scheduler\<close>

text \<open>
  Everything that can happen to a scheduler: a call of a public method (by the
  client or by a running handler), a pending timer firing, and a handler completing
  or failing. \<open>ResumeAll\<close> is a call of \<^verbatim>\<open>resumeAll\<close> during which nothing else
  runs; a call that is interleaved with other actions is \<open>ResumeAllBegin\<close>, then
  a \<open>ResumeEvent\<close> for each id, with those actions in between. \<open>step\<close> gives the state after the action, also when the call throws
  (the state is then the one at the throw). It is \<open>None\<close> when the action cannot
  happen (a timer that is not pending, a handler that is not running) or leaves the
  typed model (see \<open>load_record\<close>).
\<close>

datatype action =
    RegisterCallback string
  | AddEvent int string string jsvalue int bool
  | RemoveEvent string
  | PauseEvent int string
  | ResumeEvent int string
  | PauseAll "string \<Rightarrow> int"
  | ResumeAll "string \<Rightarrow> int"
  | ResumeAllBegin
  | RemoveAllByType string
  | ExecuteImmediately string
  | LoadEvents "jsvalue option"
  | Fire nat
  | Complete int nat
  | HandlerFails nat

fun step :: "action \<Rightarrow> scheduler \<Rightarrow> scheduler option" where
  "step (RegisterCallback name) s = Some (snd (registerCallback name s))"
| "step (AddEvent now i name ps d rep) s = Some (snd (addEvent now i name ps d rep s))"
| "step (RemoveEvent i) s = Some (removeEvent i s)"
| "step (PauseEvent now i) s = Some (pauseEvent now i s)"
| "step (ResumeEvent now i) s = Some (resumeEvent now i s)"
| "step (PauseAll clock) s = Some (pauseAll clock s)"
| "step (ResumeAll clock) s = Some (resumeAll_uninterrupted clock s)"
| "step ResumeAllBegin s = Some (resumeAll_begin s)"
| "step (RemoveAllByType ty) s = Some (removeAllByType ty s)"
| "step (ExecuteImmediately i) s = Some (snd (executeImmediately i s))"
| "step (LoadEvents data) s = map_option snd (loadEvents data s)"
| "step (Fire h) s =
     (if h < length (timers s)
      then (case timers s ! h of
              None \<Rightarrow> None
            | Some (r, d) \<Rightarrow> Some (snd (runEvent_begin r (s\<lparr>timers := (timers s)[h := None]\<rparr>))))
      else None)"
| "step (Complete now r) s =
     (if r \<in> set (executing s)
      then Some (snd (runEvent_finish now r (s\<lparr>executing := remove1 r (executing s)\<rparr>)))
      else None)"
| "step (HandlerFails r) s =
     (if r \<in> set (executing s)
      then Some (s\<lparr>executing := remove1 r (executing s)\<rparr>)
      else None)"

fun exec :: "action list \<Rightarrow> scheduler \<Rightarrow> scheduler option" where
  "exec [] s = Some s"
| "exec (a # as) s = (case step a s of None \<Rightarrow> None | Some s1 \<Rightarrow> exec as s1)"

text \<open>
  \<^verbatim>\<open>resumeAll\<close> with its suspensions. \<open>during i\<close> is what runs while the method
  awaits the \<open>resumeEvent\<close> of the id \<open>i\<close>: continuations of other
  asynchronous code (handlers completing, further calls of the client). The loop runs
  over the ids that the table had at the start. The result is the final state together
  with the list of the calls of \<open>resumeEvent\<close> that were made, each with the
  state in which it was made; it is \<open>None\<close> when an action of \<open>during\<close>
  cannot happen.
\<close>

fun resumeAll_from ::
  "(string \<Rightarrow> int) \<Rightarrow> (string \<Rightarrow> action list) \<Rightarrow> string list \<Rightarrow> scheduler
     \<Rightarrow> ((string \<times> scheduler) list \<times> scheduler) option" where
  "resumeAll_from clock during [] s = Some ([], s)"
| "resumeAll_from clock during (i # ids) s =
     (case exec (during i) (resumeEvent (clock i) i s) of
        None \<Rightarrow> None
      | Some s1 \<Rightarrow>
          (case resumeAll_from clock during ids s1 of
             None \<Rightarrow> None
           | Some (calls, s2) \<Rightarrow> Some ((i, s) # calls, s2)))"

definition resumeAll ::
  "(string \<Rightarrow> int) \<Rightarrow> (string \<Rightarrow> action list) \<Rightarrow> scheduler
     \<Rightarrow> ((string \<times> scheduler) list \<times> scheduler) option" where
  "resumeAll clock during s =
     resumeAll_from clock during (map fst (eventMap s)) (resumeAll_begin s)"

subsection \<open>Well-formed states and example states\<close>

text \<open>Every object the event table refers to has been allocated.\<close>

definition table_ok :: "scheduler \<Rightarrow> bool" where
  "table_ok s \<longleftrightarrow> (\<forall>(k, r) \<in> set (eventMap s). r < length (heap s))"

text \<open>
  A new scheduler with the handler \<^verbatim>\<open>"ping"\<close> registered; the same after
  \<^verbatim>\<open>resumeAll()\<close>; and with the event \<^verbatim>\<open>"e1"\<close> added at time 0 for 100 ms.
\<close>

definition demo_registered :: scheduler where
  "demo_registered = snd (registerCallback ''ping'' init)"

definition demo_active :: scheduler where
  "demo_active = resumeAll_uninterrupted (\<lambda>_. 0) demo_registered"

definition demo_scheduled :: scheduler where
  "demo_scheduled = snd (addEvent 0 ''e1'' ''ping'' (JObj []) 100 False demo_active)"

text \<open>
  The serialized format as the specification describes it (section 6, "an ordered
  sequence of records \<^verbatim>\<open>{id, lookupName, params, status, addedAtTime,
  remainingTime, duration, autoRepeat}\<close>"): the input parses to an array whose
  elements all are such records. The code has no counterpart of this test.
\<close>

definition spec_wellformed :: "jsvalue option \<Rightarrow> bool" where
  "spec_wellformed data =
     (case data of
        Some (JArr js) \<Rightarrow> list_all (\<lambda>j. event_of_json j \<noteq> None) js
      | _ \<Rightarrow> False)"

text \<open>
  A persisted paused event whose handler \<^verbatim>\<open>"ghost"\<close> nobody registers, and the
  scheduler after loading it, \<^verbatim>\<open>resumeAll()\<close> and \<^verbatim>\<open>executeImmediately("e1")\<close>.
\<close>

definition demo_record :: jsvalue where
  "demo_record =
     JObj [(''id'', JStr ''e1''), (''lookupName'', JStr ''ghost''), (''params'', JObj []),
           (''status'', JStr ''paused''), (''addedAtTime'', JNum 0),
           (''remainingTime'', JNum 100), (''duration'', JNum 100),
           (''autoRepeat'', JBool False)]"

definition demo_orphan :: scheduler where
  "demo_orphan =
     \<lparr>heap = [\<lparr>event_id = ''e1'', lookupName = ''ghost'', params = JObj [],
                status = Scheduled, addedAtTime = 0, remainingTime = 100, duration = 100,
                autoRepeat = False, jobId = None\<rparr>],
      timers = [None], eventMap = [(''e1'', 0)], callbackMap = [],
      sched_status = Running, executing = []\<rparr>"

subsection \<open>The invariant of the scheduler\<close>

text \<open>
  \<open>frame_ok\<close>: the keys of the table are distinct, every entry refers to an
  allocated object stored under its own id, a pending timer refers to an allocated
  object, a running handler belongs to an allocated object with a registered name,
  and timers and running handlers exist only when the scheduler is not globally paused.
\<close>

definition frame_ok :: "scheduler \<Rightarrow> bool" where
  "frame_ok s \<longleftrightarrow>
     distinct (map fst (eventMap s)) \<and>
     (\<forall>(k, r) \<in> set (eventMap s). r < length (heap s) \<and> event_id (heap s ! r) = k) \<and>
     (\<forall>t \<in> set (timers s). \<forall>r d. t = Some (r, d) \<longrightarrow>
          r < length (heap s) \<and> sched_status s \<noteq> Paused) \<and>
     (\<forall>r \<in> set (executing s). r < length (heap s)
          \<and> lookupName (heap s ! r) \<in> set (callbackMap s) \<and> sched_status s \<noteq> Paused)"

text \<open>
  What holds of an event in the table, given the registry and the global status: an
  event with a timer handle is scheduled or running, and a handle or the status
  \<open>Scheduled\<close> occurs only when the scheduler is not globally paused. With
  \<open>strict\<close>, moreover the handler of the event is registered and a scheduled
  event has a handle.
\<close>

definition event_ok :: "bool \<Rightarrow> string list \<Rightarrow> EventStatus \<Rightarrow> Event \<Rightarrow> bool" where
  "event_ok strict cbs g e \<longleftrightarrow>
     (jobId e \<noteq> None \<longrightarrow> (status e = Scheduled \<or> status e = Running) \<and> g \<noteq> Paused) \<and>
     (status e = Scheduled \<longrightarrow> g \<noteq> Paused) \<and>
     (strict \<longrightarrow> lookupName e \<in> set cbs \<and> (status e = Scheduled \<longrightarrow> jobId e \<noteq> None))"

definition entry_ok :: "bool \<Rightarrow> scheduler \<Rightarrow> nat \<Rightarrow> bool" where
  "entry_ok strict s r \<longleftrightarrow> event_ok strict (callbackMap s) (sched_status s) (heap s ! r)"

definition sched_inv :: "bool \<Rightarrow> scheduler \<Rightarrow> bool" where
  "sched_inv strict s \<longleftrightarrow> frame_ok s \<and> (\<forall>(k, r) \<in> set (eventMap s). entry_ok strict s r)"

text \<open>
  Every timer handle held by an object is the index of a timer that has been created.
\<close>

definition handles_ok :: "scheduler \<Rightarrow> bool" where
  "handles_ok s \<longleftrightarrow> (\<forall>e \<in> set (heap s). \<forall>h. jobId e = Some h \<longrightarrow> h < length (timers s))"

text \<open>
  \<open>loads_registered a s\<close>: if the action is a \<open>loadEvents\<close> of an array, every
  element that it stores names a handler registered in \<open>s\<close>. \<open>run_registered\<close>
  says so of every action of a run.
\<close>

definition record_registered :: "scheduler \<Rightarrow> jsvalue \<Rightarrow> bool" where
  "record_registered s j \<longleftrightarrow>
     (json_field j ''status'' = Some (JStr ''scheduled'')
        \<or> json_field j ''status'' = Some (JStr ''paused'')
      \<longrightarrow> (case get_str j ''lookupName'' of
             Some n \<Rightarrow> n \<in> set (callbackMap s)
           | None \<Rightarrow> False))"

fun loads_registered :: "action \<Rightarrow> scheduler \<Rightarrow> bool" where
  "loads_registered (LoadEvents (Some (JArr js))) s = list_all (record_registered s) js"
| "loads_registered _ s = True"

fun run_registered :: "action list \<Rightarrow> scheduler \<Rightarrow> bool" where
  "run_registered [] s = True"
| "run_registered (a # as) s =
     (loads_registered a s \<and>
      (case step a s of None \<Rightarrow> True | Some s1 \<Rightarrow> run_registered as s1))"

subsection \<open>Notions and states for the statements\<close>

text \<open>
  The invariant as the specification states it (section 3): an event of the table has
  a timer handle iff its status is \<open>Scheduled\<close> and the scheduler is not
  globally paused.
\<close>

definition handle_iff :: "scheduler \<Rightarrow> bool" where
  "handle_iff s \<longleftrightarrow>
     (\<forall>(k, r) \<in> set (eventMap s).
        jobId (heap s ! r) \<noteq> None \<longleftrightarrow> status (heap s ! r) = Scheduled \<and> sched_status s \<noteq> Paused)"

text \<open>
  The scheduler \<open>demo_scheduled\<close> after the timer of \<^verbatim>\<open>"e1"\<close> has fired
  and the handler has started; and the same for an event added with
  \<^verbatim>\<open>autoRepeat = true\<close>.
\<close>

definition demo_running :: scheduler where
  "demo_running =
     \<lparr>heap = [\<lparr>event_id = ''e1'', lookupName = ''ping'', params = JObj [],
                status = Running, addedAtTime = 0, remainingTime = 100, duration = 100,
                autoRepeat = False, jobId = Some 0\<rparr>],
      timers = [None], eventMap = [(''e1'', 0)], callbackMap = [''ping''],
      sched_status = Running, executing = [0]\<rparr>"

definition demo_repeating :: scheduler where
  "demo_repeating =
     \<lparr>heap = [\<lparr>event_id = ''e1'', lookupName = ''ping'', params = JObj [],
                status = Running, addedAtTime = 0, remainingTime = 100, duration = 100,
                autoRepeat = True, jobId = Some 0\<rparr>],
      timers = [None], eventMap = [(''e1'', 0)], callbackMap = [''ping''],
      sched_status = Running, executing = [0]\<rparr>"

text \<open>
  The object that \<open>resumeEvent\<close> leaves behind when it re-arms an event at time
  \<open>now\<close> with the timer \<open>h\<close>.
\<close>

definition rearmed :: "int \<Rightarrow> nat \<Rightarrow> Event \<Rightarrow> Event" where
  "rearmed now h e =
     e\<lparr>status := Scheduled, addedAtTime := now,
       remainingTime := (if remainingTime e \<le> 0 then duration e else remainingTime e),
       jobId := Some h\<rparr>"

text \<open>
  The active scheduler with \<^verbatim>\<open>"e1"\<close> (100 ms) and \<^verbatim>\<open>"e2"\<close> (200 ms) added at
  time 0 and \<^verbatim>\<open>"e1"\<close> paused at time 30.
\<close>

definition demo_mixed :: scheduler where
  "demo_mixed =
     \<lparr>heap = [\<lparr>event_id = ''e1'', lookupName = ''ping'', params = JObj [],
                status = Paused, addedAtTime = 0, remainingTime = 70, duration = 100,
                autoRepeat = False, jobId = None\<rparr>,
               \<lparr>event_id = ''e2'', lookupName = ''ping'', params = JObj [],
                status = Scheduled, addedAtTime = 0, remainingTime = 200, duration = 200,
                autoRepeat = False, jobId = Some 1\<rparr>],
      timers = [None, Some (1, 200)], eventMap = [(''e1'', 0), (''e2'', 1)],
      callbackMap = [''ping''], sched_status = Running, executing = []\<rparr>"

text \<open>
  For the round trip: an event as it comes back from the string that
  \<open>saveEvents\<close> writes (its \<open>params\<close> is what \<^verbatim>\<open>JSON.parse\<close> returns
  for it); the statuses that \<open>loadEvents\<close> stores; what \<open>loadEvents\<close> does
  with one event that has come back (the body of its loop); and how a stored event
  \<open>e'\<close> relates to the saved event \<open>e\<close> when the loading scheduler has the
  global status \<open>g\<close>.
\<close>

definition reparsed :: "Event \<Rightarrow> Event" where
  "reparsed e =
     e\<lparr>params := (if json_omitted (params e) then JUndefined else to_json (params e))\<rparr>"

definition restorable :: "Event \<Rightarrow> bool" where
  "restorable e \<longleftrightarrow> status e = Scheduled \<or> status e = Paused"

definition restore :: "Event \<Rightarrow> scheduler \<Rightarrow> scheduler" where
  "restore e t =
     (if restorable e
      then scheduleEvent (length (heap t)) (Some (remainingTime e))
             (t\<lparr>heap := heap t @ [e\<lparr>jobId := None\<rparr>]\<rparr>)
      else t)"

definition restored_as :: "EventStatus \<Rightarrow> Event \<Rightarrow> Event \<Rightarrow> bool" where
  "restored_as g e e' \<longleftrightarrow>
     event_id e' = event_id e \<and> lookupName e' = lookupName e
     \<and> addedAtTime e' = addedAtTime e \<and> duration e' = duration e
     \<and> autoRepeat e' = autoRepeat e
     \<and> status e' = (if g = Paused then Paused else Scheduled)
     \<and> remainingTime e' = (if remainingTime e \<le> 0 then duration e else remainingTime e)
     \<and> (jobId e' = None \<longleftrightarrow> g = Paused)"

section \<open>Basic facts about the operations\<close>

lemmas op_defs =
  init_def modify_def allocate_def setTimeout_def clearTimeout_def lookup_event_def
  registerCallback_def removeEvent_def scheduleEvent_def addEvent_def pauseEvent_def
  resumeEvent_def pauseAll_def resumeAll_uninterrupted_def resumeAll_begin_def
  removeAllByType_def runEvent_begin_def runEvent_finish_def executeImmediately_def

lemma demo_registered_eq:
  "demo_registered = \<lparr>heap = [], timers = [], eventMap = [], callbackMap = [''ping''],
     sched_status = Paused, executing = []\<rparr>"
  by (simp add: demo_registered_def op_defs)

lemma demo_active_eq:
  "demo_active = \<lparr>heap = [], timers = [], eventMap = [], callbackMap = [''ping''],
     sched_status = Running, executing = []\<rparr>"
  by (simp add: demo_active_def demo_registered_eq op_defs)

lemma demo_scheduled_eq:
  "demo_scheduled =
     \<lparr>heap = [\<lparr>event_id = ''e1'', lookupName = ''ping'', params = JObj [],
                status = Scheduled, addedAtTime = 0, remainingTime = 100, duration = 100,
                autoRepeat = False, jobId = Some 0\<rparr>],
      timers = [Some (0, 100)], eventMap = [(''e1'', 0)], callbackMap = [''ping''],
      sched_status = Running, executing = []\<rparr>"
  by (simp add: demo_scheduled_def demo_active_eq op_defs)

lemma modify_simps [simp]:
  "heap (modify r f s) = (heap s)[r := f (heap s ! r)]"
  "timers (modify r f s) = timers s"
  "eventMap (modify r f s) = eventMap s"
  "callbackMap (modify r f s) = callbackMap s"
  "sched_status (modify r f s) = sched_status s"
  "executing (modify r f s) = executing s"
  by (simp_all add: modify_def)

lemma clearTimeout_simps [simp]:
  "heap (clearTimeout h s) = heap s"
  "timers (clearTimeout h s) = (timers s)[h := None]"
  "eventMap (clearTimeout h s) = eventMap s"
  "callbackMap (clearTimeout h s) = callbackMap s"
  "sched_status (clearTimeout h s) = sched_status s"
  "executing (clearTimeout h s) = executing s"
  by (simp_all add: clearTimeout_def)

lemma delete_absent: "map_of al k = None \<Longrightarrow> AList.delete k al = al"
  by (simp add: map_of_eq_None_iff)

lemma removeEvent_absent: "map_of (eventMap s) i = None \<Longrightarrow> removeEvent i s = s"
  by (simp add: removeEvent_def)

lemma removeEvent_simps [simp]:
  "heap (removeEvent i s) = heap s"
  "eventMap (removeEvent i s) = AList.delete i (eventMap s)"
  "callbackMap (removeEvent i s) = callbackMap s"
  "sched_status (removeEvent i s) = sched_status s"
  "executing (removeEvent i s) = executing s"
  "length (timers (removeEvent i s)) = length (timers s)"
  by (auto simp: removeEvent_def Let_def delete_absent split: option.splits)

lemma timers_removeEvent:
  "timers (removeEvent i s) =
     (case map_of (eventMap s) i of
        None \<Rightarrow> timers s
      | Some r \<Rightarrow> (case jobId (heap s ! r) of None \<Rightarrow> timers s | Some h \<Rightarrow> (timers s)[h := None]))"
  by (simp add: removeEvent_def Let_def split: option.splits)

text \<open>What \<open>scheduleEvent\<close> does to an allocated object, field by field.\<close>

lemma scheduleEvent_simps:
  assumes "r < length (heap s)"
  shows
  "heap (scheduleEvent r delay s) =
     (heap s)[r := (heap s ! r)\<lparr>
        remainingTime := (if remainingTime (heap s ! r) \<le> 0 then duration (heap s ! r)
                          else remainingTime (heap s ! r)),
        status := (if sched_status s = Paused then Paused else Scheduled),
        jobId := (if sched_status s = Paused then jobId (heap s ! r)
                  else Some (length (timers s)))\<rparr>]"
  "timers (scheduleEvent r delay s) =
     (if sched_status s = Paused then timers (removeEvent (event_id (heap s ! r)) s)
      else timers (removeEvent (event_id (heap s ! r)) s) @
        [Some (r, case delay of Some d \<Rightarrow> d
                  | None \<Rightarrow> (if remainingTime (heap s ! r) \<le> 0 then duration (heap s ! r)
                             else remainingTime (heap s ! r)))])"
  "eventMap (scheduleEvent r delay s) =
     AList.update (event_id (heap s ! r)) r (AList.delete (event_id (heap s ! r)) (eventMap s))"
  using assms
  by (auto simp: scheduleEvent_def Let_def setTimeout_def delete_absent removeEvent_absent
           split: option.splits)

lemma scheduleEvent_frame [simp]:
  "callbackMap (scheduleEvent r delay s) = callbackMap s"
  "sched_status (scheduleEvent r delay s) = sched_status s"
  "executing (scheduleEvent r delay s) = executing s"
  "length (heap (scheduleEvent r delay s)) = length (heap s)"
  by (auto simp: scheduleEvent_def Let_def setTimeout_def split: option.splits)

lemma timers_removeEvent_alloc:
  assumes "table_ok s"
  shows "timers (removeEvent i (s\<lparr>heap := heap s @ [e]\<rparr>)) = timers (removeEvent i s)"
proof (cases "map_of (eventMap s) i")
  case None
  then show ?thesis by (simp add: timers_removeEvent)
next
  case (Some r)
  then have "(i, r) \<in> set (eventMap s)" by (rule map_of_SomeD)
  with assms have "r < length (heap s)" by (auto simp: table_ok_def)
  with Some show ?thesis by (simp add: timers_removeEvent nth_append split: option.splits)
qed

text \<open>A successful \<open>addEvent\<close>, field by field.\<close>

lemma addEvent_registered:
  assumes "name \<in> set (callbackMap s)" and "table_ok s"
  shows "fst (addEvent now i name ps d rep s) = Inr i"
    and "heap (snd (addEvent now i name ps d rep s)) =
      heap s @ [\<lparr>event_id = i, lookupName = name, params = ps,
                 status = (if sched_status s = Paused then Paused else Scheduled),
                 addedAtTime = now, remainingTime = d, duration = d, autoRepeat = rep,
                 jobId = (if sched_status s = Paused then None else Some (length (timers s)))\<rparr>]"
    and "timers (snd (addEvent now i name ps d rep s)) =
      (if sched_status s = Paused then timers (removeEvent i s)
       else timers (removeEvent i s) @ [Some (length (heap s), d)])"
    and "eventMap (snd (addEvent now i name ps d rep s)) =
      AList.update i (length (heap s)) (AList.delete i (eventMap s))"
  using assms
  by (auto simp: addEvent_def allocate_def scheduleEvent_simps timers_removeEvent_alloc)

lemma addEvent_frame [simp]:
  "callbackMap (snd (addEvent now i name ps d rep s)) = callbackMap s"
  "sched_status (snd (addEvent now i name ps d rep s)) = sched_status s"
  "executing (snd (addEvent now i name ps d rep s)) = executing s"
  by (simp_all add: addEvent_def allocate_def)

section \<open>Adding an event for an unregistered handler\<close>

text \<open>
  Claim C6. When the name is not in the handler registry, \<open>addEvent\<close> throws (the
  error of the spec's \<^verbatim>\<open>UnknownHandlerError\<close>) and returns the scheduler exactly as
  it was: no event is created, and an event already stored under the id is neither
  removed nor replaced.
\<close>

theorem addEvent_unknown_handler:
  "name \<notin> set (callbackMap s) \<Longrightarrow> addEvent now i name ps d rep s = (Inl UnknownHandler, s)"
  by (simp add: addEvent_def)

theorem addEvent_unknown_handler_witness:
  "''pong'' \<notin> set (callbackMap demo_scheduled)
   \<and> addEvent 5 ''e1'' ''pong'' JNull 7 True demo_scheduled = (Inl UnknownHandler, demo_scheduled)
   \<and> map_of (eventMap demo_scheduled) ''e1'' = Some 0"
proof -
  have h: "''pong'' \<notin> set (callbackMap demo_scheduled)"
    by (simp add: demo_scheduled_eq)
  show ?thesis
    using h addEvent_unknown_handler [OF h, of 5 "''e1''" JNull 7 True]
    by (simp add: demo_scheduled_eq)
qed

section \<open>The re-arm rule and the delay of the timer\<close>

lemmas json_defs = json_field_def get_str_def get_num_def get_bool_def event_of_json_def
  status_of_name_def json_of_event_def saveEvents_def load_record_def loadEvents_def
  load_saved_def

lemma demo_record_event:
  "event_of_json demo_record =
     Some \<lparr>event_id = ''e1'', lookupName = ''ghost'', params = JObj [],
            status = Paused, addedAtTime = 0, remainingTime = 100, duration = 100,
            autoRepeat = False, jobId = None\<rparr>"
  by (simp add: demo_record_def json_defs)

text \<open>
  Claim C1. The event \<^verbatim>\<open>"e1"\<close> (100 ms, added at time 0) is paused at time 150,
  before its late timer callback could run: its \<open>remainingTime\<close> is \<open>-50\<close>.
  \<open>resumeEvent\<close> at time 200 resets the field to the duration 100, yet the timer
  it arms has the delay \<open>-50\<close>, the value read before the reset. \<open>loadEvents\<close>
  of the saved paused event does the same.
\<close>

theorem rearm_uses_stale_delay:
  "remainingTime (heap (pauseEvent 150 ''e1'' demo_scheduled) ! 0) = -50
   \<and> timers (resumeEvent 200 ''e1'' (pauseEvent 150 ''e1'' demo_scheduled)) = [None, Some (0, -50)]
   \<and> remainingTime (heap (resumeEvent 200 ''e1'' (pauseEvent 150 ''e1'' demo_scheduled)) ! 0) = 100
   \<and> map_option (timers \<circ> snd)
       (load_saved (pauseEvent 150 ''e1'' demo_scheduled) demo_active)
       = Some [Some (0, -50)]
   \<and> map_option (map remainingTime \<circ> heap \<circ> snd)
       (load_saved (pauseEvent 150 ''e1'' demo_scheduled) demo_active)
       = Some [100]"
  by (simp add: demo_scheduled_eq demo_active_eq op_defs json_defs)

section \<open>Adding an event with a non-positive duration\<close>

text \<open>
  Claim C10, as stated, fails on a scheduler that is globally paused, as every new
  scheduler is: \<open>addEvent\<close> with the registered handler and duration 0 succeeds
  and arms no timer.
\<close>

theorem addEvent_paused_counterexample:
  "''ping'' \<in> set (callbackMap demo_registered) \<and> (0::int) \<le> 0
   \<and> fst (addEvent 0 ''e1'' ''ping'' (JObj []) 0 False demo_registered) = Inr ''e1''
   \<and> timers (snd (addEvent 0 ''e1'' ''ping'' (JObj []) 0 False demo_registered)) = []"
  by (simp add: demo_registered_eq op_defs)

text \<open>
  Claim C10, amended. With a registered handler and a duration \<open>d \<le> 0\<close>,
  \<open>addEvent\<close> succeeds and stores the event with \<open>remainingTime = d\<close> (the reset
  writes the same value). When the scheduler is not globally paused, it arms one new
  timer, for the new object and with delay \<open>d\<close>, after cancelling the timer of an
  event it replaces; when the scheduler is globally paused, it arms no timer and the
  event is stored paused.
\<close>

theorem addEvent_nonpositive_duration:
  assumes "name \<in> set (callbackMap s)" and "d \<le> 0" and "table_ok s"
  shows "fst (addEvent now i name ps d rep s) = Inr i
    \<and> lookup_event (snd (addEvent now i name ps d rep s)) i =
        Some \<lparr>event_id = i, lookupName = name, params = ps,
               status = (if sched_status s = Paused then Paused else Scheduled),
               addedAtTime = now, remainingTime = d, duration = d, autoRepeat = rep,
               jobId = (if sched_status s = Paused then None else Some (length (timers s)))\<rparr>
    \<and> timers (snd (addEvent now i name ps d rep s)) =
        (if sched_status s = Paused then timers (removeEvent i s)
         else timers (removeEvent i s) @ [Some (length (heap s), d)])"
  using assms(1,3)
  by (simp add: addEvent_registered lookup_event_def AList.update_conv')

theorem addEvent_nonpositive_duration_witness:
  "''ping'' \<in> set (callbackMap demo_scheduled) \<and> (-5::int) \<le> 0 \<and> table_ok demo_scheduled
   \<and> timers (snd (addEvent 7 ''e2'' ''ping'' JNull (-5) False demo_scheduled))
       = [Some (0, 100), Some (1, -5)]
   \<and> map_option remainingTime
       (lookup_event (snd (addEvent 7 ''e2'' ''ping'' JNull (-5) False demo_scheduled)) ''e2'')
       = Some (-5)"
proof -
  have h1: "''ping'' \<in> set (callbackMap demo_scheduled)" by (simp add: demo_scheduled_eq)
  have h2: "(-5::int) \<le> 0" by simp
  have h3: "table_ok demo_scheduled" by (simp add: demo_scheduled_eq table_ok_def)
  show ?thesis
    using h1 h2 h3 addEvent_nonpositive_duration [OF h1 h2 h3, of 7 "''e2''" JNull False]
    by (simp add: demo_scheduled_eq timers_removeEvent)
qed

section \<open>Pausing one event\<close>

text \<open>
  Claim C7, as stated, fails where an event is scheduled and has no timer handle. That
  state is reached by loading an event whose handler is not registered, resuming, and
  \<open>executeImmediately\<close>, which clears the handle and then throws. There
  \<open>pauseEvent\<close> leaves the status \<open>Scheduled\<close>.
\<close>

theorem pauseEvent_guard_counterexample:
  "exec [LoadEvents (Some (JArr [demo_record])), ResumeAll (\<lambda>_. 0), ExecuteImmediately ''e1''] init
     = Some demo_orphan
   \<and> map_option status (lookup_event demo_orphan ''e1'') = Some Scheduled
   \<and> map_option status (lookup_event (pauseEvent 10 ''e1'' demo_orphan) ''e1'') = Some Scheduled"
  apply (simp add: demo_orphan_def loadEvents_def load_record_def demo_record_event)
  apply (simp add: demo_record_def json_field_def op_defs)
  done

text \<open>
  Claim C7, amended. \<open>pauseEvent\<close> changes nothing unless the event exists, its
  status is \<open>Scheduled\<close> and it has a timer handle. When it applies, the timer of
  that handle is cancelled, the object gets \<open>remainingTime\<close> decreased by
  \<open>now - addedAtTime\<close>, status \<open>Paused\<close> and no handle; its other fields, every
  other object, the table and the rest of the scheduler are unchanged.
\<close>

theorem pauseEvent_effect:
  "((map_of (eventMap s) i = None
      \<or> (\<exists>r. map_of (eventMap s) i = Some r
              \<and> (status (heap s ! r) \<noteq> Scheduled \<or> jobId (heap s ! r) = None)))
     \<longrightarrow> pauseEvent now i s = s)
   \<and> (\<forall>r h. map_of (eventMap s) i = Some r \<and> r < length (heap s)
          \<and> status (heap s ! r) = Scheduled \<and> jobId (heap s ! r) = Some h
        \<longrightarrow> heap (pauseEvent now i s) =
              (heap s)[r := (heap s ! r)\<lparr>
                 remainingTime := remainingTime (heap s ! r) - (now - addedAtTime (heap s ! r)),
                 status := Paused, jobId := None\<rparr>]
            \<and> timers (pauseEvent now i s) = (timers s)[h := None]
            \<and> eventMap (pauseEvent now i s) = eventMap s
            \<and> callbackMap (pauseEvent now i s) = callbackMap s
            \<and> sched_status (pauseEvent now i s) = sched_status s
            \<and> executing (pauseEvent now i s) = executing s)"
  by (auto simp: pauseEvent_def)

theorem pauseEvent_effect_witness:
  "pauseEvent 30 ''zz'' demo_scheduled = demo_scheduled
   \<and> pauseEvent 30 ''e1'' (pauseEvent 30 ''e1'' demo_scheduled) = pauseEvent 30 ''e1'' demo_scheduled
   \<and> heap (pauseEvent 30 ''e1'' demo_scheduled) =
       [\<lparr>event_id = ''e1'', lookupName = ''ping'', params = JObj [],
         status = Paused, addedAtTime = 0, remainingTime = 70, duration = 100,
         autoRepeat = False, jobId = None\<rparr>]
   \<and> timers (pauseEvent 30 ''e1'' demo_scheduled) = [None]"
  using pauseEvent_effect [of demo_scheduled "''zz''" 30]
        pauseEvent_effect [of "pauseEvent 30 ''e1'' demo_scheduled" "''e1''" 30]
        pauseEvent_effect [of demo_scheduled "''e1''" 30]
  by (simp add: demo_scheduled_eq pauseEvent_def)

section \<open>Loading malformed input\<close>

lemma demo_record_loaded:
  "load_record demo_record init =
     Some (Inr (), \<lparr>heap = [\<lparr>event_id = ''e1'', lookupName = ''ghost'', params = JObj [],
                       status = Paused, addedAtTime = 0, remainingTime = 100, duration = 100,
                       autoRepeat = False, jobId = None\<rparr>],
                   timers = [], eventMap = [(''e1'', 0)], callbackMap = [],
                   sched_status = Paused, executing = []\<rparr>)"
  apply (simp add: load_record_def demo_record_event)
  apply (simp add: demo_record_def json_field_def op_defs)
  done

text \<open>
  Claim C5, as stated, fails for input that is an array. With an element that is not
  an event record, \<open>loadEvents\<close> returns normally, having loaded the record before
  it. With an element whose \<^verbatim>\<open>remainingTime\<close> cannot be printed, it throws a
  \<^verbatim>\<open>TypeError\<close> at that element, and the record before it stays loaded.
\<close>

theorem loadEvents_unvalidated_counterexample:
  "\<not> spec_wellformed (Some (JArr [demo_record, JNum 5]))
   \<and> map_option fst (loadEvents (Some (JArr [demo_record, JNum 5])) init) = Some (Inr ())
   \<and> map_option (eventMap \<circ> snd) (loadEvents (Some (JArr [demo_record, JNum 5])) init)
       = Some [(''e1'', 0)]
   \<and> \<not> spec_wellformed (Some (JArr [demo_record,
           JObj [(''status'', JStr ''paused''),
                 (''remainingTime'', JObj [(''toString'', JNum 0)])]]))
   \<and> map_option fst (loadEvents (Some (JArr [demo_record,
           JObj [(''status'', JStr ''paused''),
                 (''remainingTime'', JObj [(''toString'', JNum 0)])]])) init)
       = Some (Inl TypeError)
   \<and> map_option (eventMap \<circ> snd) (loadEvents (Some (JArr [demo_record,
           JObj [(''status'', JStr ''paused''),
                 (''remainingTime'', JObj [(''toString'', JNum 0)])]])) init)
       = Some [(''e1'', 0)]"
  by (simp add: spec_wellformed_def loadEvents_def demo_record_loaded demo_record_event)
     (simp add: load_record_def json_defs)

text \<open>
  Claim C5, amended. When \<^verbatim>\<open>JSON.parse\<close> rejects the input, \<open>loadEvents\<close>
  throws a \<^verbatim>\<open>SyntaxError\<close>; when the input parses to a value that is not an array,
  it throws a \<^verbatim>\<open>TypeError\<close>. In both cases the scheduler is unchanged.
\<close>

theorem loadEvents_rejects:
  "loadEvents None s = Some (Inl SyntaxError, s)
   \<and> ((\<forall>js. v \<noteq> JArr js) \<longrightarrow> loadEvents (Some v) s = Some (Inl TypeError, s))"
  by (cases v) (simp_all add: loadEvents_def)

theorem loadEvents_rejects_witness:
  "loadEvents None demo_scheduled = Some (Inl SyntaxError, demo_scheduled)
   \<and> (\<forall>js. JObj [] \<noteq> JArr js)
   \<and> loadEvents (Some (JObj [])) demo_scheduled = Some (Inl TypeError, demo_scheduled)"
  using loadEvents_rejects [of demo_scheduled "JObj []"] by simp

section \<open>The invariant is kept by every step\<close>

lemma in_set_update_None: "t \<in> set (xs[h := None]) \<Longrightarrow> t = None \<or> t \<in> set xs"
  using set_update_subset_insert [of xs h None] by auto

lemma in_set_delete: "(k, r) \<in> set (AList.delete i al) \<Longrightarrow> (k, r) \<in> set al \<and> k \<noteq> i"
  by (auto simp: AList.delete_eq)

lemma update_fresh: "i \<notin> fst ` set al \<Longrightarrow> AList.update i v al = al @ [(i, v)]"
  by (induction al) auto

lemma update_delete: "AList.update i v (AList.delete i al) = AList.delete i al @ [(i, v)]"
  by (simp add: update_fresh AList.delete_notin_dom)

lemma in_set_update:
  "(k, r) \<in> set (AList.update i v (AList.delete i al)) \<Longrightarrow>
     (k = i \<and> r = v) \<or> ((k, r) \<in> set al \<and> k \<noteq> i)"
  by (auto simp: update_delete dest: in_set_delete)

lemma sched_inv_weaken: "sched_inv strict s \<Longrightarrow> sched_inv False s"
  by (auto simp: sched_inv_def entry_ok_def event_ok_def)

lemma sched_inv_table_ok: "sched_inv strict s \<Longrightarrow> table_ok s"
  by (auto simp: sched_inv_def frame_ok_def table_ok_def)

lemma sched_inv_entry:
  "sched_inv strict s \<Longrightarrow> map_of (eventMap s) i = Some r \<Longrightarrow>
     r < length (heap s) \<and> event_id (heap s ! r) = i
     \<and> event_ok strict (callbackMap s) (sched_status s) (heap s ! r)"
  by (auto simp: sched_inv_def frame_ok_def entry_ok_def dest!: map_of_SomeD)

lemma frame_ok_removeEvent: "frame_ok s \<Longrightarrow> frame_ok (removeEvent i s)"
  unfolding frame_ok_def
  by (auto simp: AList.distinct_delete timers_removeEvent dest!: in_set_delete in_set_update_None
      split: option.splits)

lemma sched_inv_removeEvent: "sched_inv strict s \<Longrightarrow> sched_inv strict (removeEvent i s)"
  unfolding sched_inv_def
  by (auto simp: frame_ok_removeEvent entry_ok_def dest!: in_set_delete)

text \<open>
  \<open>scheduleEvent\<close> on an allocated object \<open>r\<close>: the other entries must be in
  order, the object itself only needs to have no handle if the scheduler is paused.
\<close>

lemma sched_inv_scheduleEvent:
  assumes f: "frame_ok s" and r: "r < length (heap s)"
    and others: "\<forall>(k, r') \<in> set (eventMap s). r' \<noteq> r \<longrightarrow> entry_ok strict s r'"
    and nojob: "sched_status s = Paused \<longrightarrow> jobId (heap s ! r) = None"
    and reg: "strict \<longrightarrow> lookupName (heap s ! r) \<in> set (callbackMap s)"
  shows "sched_inv strict (scheduleEvent r delay s)"
proof -
  let ?k = "event_id (heap s ! r)"
  let ?s' = "scheduleEvent r delay s"
  have f': "frame_ok (removeEvent ?k s)" using f by (rule frame_ok_removeEvent)
  have key: "\<And>k r'. (k, r') \<in> set (eventMap s) \<Longrightarrow> k \<noteq> ?k \<Longrightarrow> r' \<noteq> r"
    using f by (auto simp: frame_ok_def)
  have 1: "distinct (map fst (eventMap ?s'))"
    using f by (simp add: scheduleEvent_simps r frame_ok_def AList.distinct_update AList.distinct_delete)
  have 2: "\<forall>(k, r') \<in> set (eventMap ?s'). r' < length (heap ?s') \<and> event_id (heap ?s' ! r') = k"
    using f r by (auto simp: scheduleEvent_simps frame_ok_def nth_list_update dest!: in_set_update)
  have 3: "\<forall>t \<in> set (timers ?s'). \<forall>r' d. t = Some (r', d) \<longrightarrow>
             r' < length (heap ?s') \<and> sched_status ?s' \<noteq> Paused"
    using f' r by (auto simp: scheduleEvent_simps frame_ok_def)
  have 4: "\<forall>r' \<in> set (executing ?s'). r' < length (heap ?s')
             \<and> lookupName (heap ?s' ! r') \<in> set (callbackMap ?s') \<and> sched_status ?s' \<noteq> Paused"
    using f r by (auto simp: scheduleEvent_simps frame_ok_def nth_list_update)
  have 5: "\<forall>(k, r') \<in> set (eventMap ?s'). entry_ok strict ?s' r'"
    using others nojob reg r key
    by (auto simp: scheduleEvent_simps entry_ok_def event_ok_def nth_list_update dest!: in_set_update)
  show ?thesis unfolding sched_inv_def frame_ok_def using 1 2 3 4 5 by blast
qed

lemma nth_modify:
  "b < length (heap s) \<Longrightarrow>
     heap (modify r g s) ! b = (if b = r then g (heap s ! b) else heap s ! b)"
  by (auto simp: nth_list_update)

lemma frame_ok_modify:
  assumes f: "frame_ok s"
    and id: "\<And>e. event_id (g e) = event_id e"
    and nm: "\<And>e. lookupName (g e) = lookupName e"
  shows "frame_ok (modify r g s)"
proof -
  have 1: "\<forall>(k, b) \<in> set (eventMap s). b < length (heap s) \<and> event_id (heap (modify r g s) ! b) = k"
  proof (clarify)
    fix k b assume "(k, b) \<in> set (eventMap s)"
    with f have "b < length (heap s)" "event_id (heap s ! b) = k" by (auto simp: frame_ok_def)
    then show "b < length (heap s) \<and> event_id (heap (modify r g s) ! b) = k"
      by (auto simp add: nth_modify id simp del: modify_simps(1))
  qed
  have 2: "\<forall>b \<in> set (executing s). b < length (heap s)
              \<and> lookupName (heap (modify r g s) ! b) \<in> set (callbackMap s) \<and> sched_status s \<noteq> Paused"
  proof
    fix b assume "b \<in> set (executing s)"
    with f have "b < length (heap s)" "lookupName (heap s ! b) \<in> set (callbackMap s)"
      "sched_status s \<noteq> Paused" by (auto simp: frame_ok_def)
    then show "b < length (heap s)
              \<and> lookupName (heap (modify r g s) ! b) \<in> set (callbackMap s) \<and> sched_status s \<noteq> Paused"
      by (auto simp add: nth_modify nm simp del: modify_simps(1))
  qed
  have 3: "\<forall>t \<in> set (timers s). \<forall>r d. t = Some (r, d) \<longrightarrow> r < length (heap s) \<and> sched_status s \<noteq> Paused"
    using f by (simp add: frame_ok_def)
  have 4: "distinct (map fst (eventMap s))" using f by (simp add: frame_ok_def)
  show ?thesis
    unfolding frame_ok_def using 1 2 3 4 by (simp add: case_prod_beta)
qed

lemma sched_inv_modify:
  assumes inv: "sched_inv strict s"
    and id: "\<And>e. event_id (g e) = event_id e"
    and nm: "\<And>e. lookupName (g e) = lookupName e"
    and ok: "r < length (heap s) \<Longrightarrow>
               event_ok strict (callbackMap s) (sched_status s) (heap s ! r) \<Longrightarrow>
               event_ok strict (callbackMap s) (sched_status s) (g (heap s ! r))"
  shows "sched_inv strict (modify r g s)"
proof -
  have f: "frame_ok (modify r g s)"
    using inv id nm by (auto simp: sched_inv_def intro: frame_ok_modify)
  have "\<forall>(k, b) \<in> set (eventMap s). entry_ok strict (modify r g s) b"
  proof (clarify)
    fix k b assume m: "(k, b) \<in> set (eventMap s)"
    with inv have b: "b < length (heap s)"
      and e: "event_ok strict (callbackMap s) (sched_status s) (heap s ! b)"
      by (auto simp: sched_inv_def frame_ok_def entry_ok_def)
    show "entry_ok strict (modify r g s) b"
      using b e ok by (cases "b = r") (simp_all add: entry_ok_def nth_modify del: modify_simps(1))
  qed
  with f show ?thesis by (simp add: sched_inv_def)
qed

lemma sched_inv_timers:
  "sched_inv strict s \<Longrightarrow> sched_inv strict (s\<lparr>timers := (timers s)[h := None]\<rparr>)"
  unfolding sched_inv_def frame_ok_def entry_ok_def
  by (auto dest!: in_set_update_None)

lemma sched_inv_alloc:
  assumes "sched_inv strict s"
  shows "frame_ok (s\<lparr>heap := heap s @ [e]\<rparr>)"
    and "\<forall>(k, r) \<in> set (eventMap s).
           entry_ok strict (s\<lparr>heap := heap s @ [e]\<rparr>) r \<and> r \<noteq> length (heap s)"
  using assms
  by (auto simp: sched_inv_def frame_ok_def entry_ok_def nth_append)

lemma sched_inv_schedule_new:
  assumes "sched_inv strict s" and "jobId e = None"
    and "strict \<longrightarrow> lookupName e \<in> set (callbackMap s)"
  shows "sched_inv strict (scheduleEvent (length (heap s)) delay (s\<lparr>heap := heap s @ [e]\<rparr>))"
proof (rule sched_inv_scheduleEvent)
  show "frame_ok (s\<lparr>heap := heap s @ [e]\<rparr>)" using assms(1) by (rule sched_inv_alloc)
  show "length (heap s) < length (heap (s\<lparr>heap := heap s @ [e]\<rparr>))" by simp
  show "\<forall>(k, r') \<in> set (eventMap (s\<lparr>heap := heap s @ [e]\<rparr>)).
          r' \<noteq> length (heap s) \<longrightarrow> entry_ok strict (s\<lparr>heap := heap s @ [e]\<rparr>) r'"
    using sched_inv_alloc(2) [OF assms(1), of e] by auto
  show "sched_status (s\<lparr>heap := heap s @ [e]\<rparr>) = Paused \<longrightarrow>
          jobId (heap (s\<lparr>heap := heap s @ [e]\<rparr>) ! length (heap s)) = None"
    using assms(2) by simp
  show "strict \<longrightarrow> lookupName (heap (s\<lparr>heap := heap s @ [e]\<rparr>) ! length (heap s))
          \<in> set (callbackMap (s\<lparr>heap := heap s @ [e]\<rparr>))"
    using assms(3) by simp
qed

lemma sched_inv_addEvent:
  "sched_inv strict s \<Longrightarrow> sched_inv strict (snd (addEvent now i name ps d rep s))"
  by (simp add: addEvent_def allocate_def sched_inv_schedule_new)

lemma sched_inv_pauseEvent:
  assumes "sched_inv strict s"
  shows "sched_inv strict (pauseEvent now i s)"
proof -
  have "sched_inv strict
          (modify r (\<lambda>e. e\<lparr>remainingTime := remainingTime e - (now - addedAtTime e),
                            status := Paused, jobId := None\<rparr>) (clearTimeout h s))" for r h
    using sched_inv_timers [OF assms, of h]
    by (intro sched_inv_modify) (simp_all add: clearTimeout_def event_ok_def)
  then show ?thesis using assms by (simp add: pauseEvent_def split: option.splits)
qed

lemma sched_inv_resumeEvent:
  assumes "sched_inv strict s"
  shows "sched_inv strict (resumeEvent now i s)"
proof (cases "map_of (eventMap s) i")
  case None
  then show ?thesis using assms by (simp add: resumeEvent_def)
next
  case (Some r)
  show ?thesis
  proof (cases "status (heap s ! r) = Paused")
    case False
    then show ?thesis using assms Some by (simp add: resumeEvent_def)
  next
    case True
    let ?s1 = "modify r (\<lambda>e. e\<lparr>status := Scheduled, addedAtTime := now\<rparr>) s"
    have r: "r < length (heap s)"
      and e: "event_ok strict (callbackMap s) (sched_status s) (heap s ! r)"
      using sched_inv_entry [OF assms Some] by auto
    have nojob: "jobId (heap s ! r) = None" using e True by (auto simp: event_ok_def)
    have "sched_inv strict (scheduleEvent r (Some (remainingTime (heap ?s1 ! r))) ?s1)"
    proof (rule sched_inv_scheduleEvent)
      show "frame_ok ?s1" using assms
        by (auto simp: sched_inv_def intro: frame_ok_modify)
      show "r < length (heap ?s1)" using r by simp
      show "\<forall>(k, r') \<in> set (eventMap ?s1). r' \<noteq> r \<longrightarrow> entry_ok strict ?s1 r'"
        using assms by (auto simp: sched_inv_def entry_ok_def)
      show "sched_status ?s1 = Paused \<longrightarrow> jobId (heap ?s1 ! r) = None"
        using nojob r by simp
      show "strict \<longrightarrow> lookupName (heap ?s1 ! r) \<in> set (callbackMap ?s1)"
        using e r by (simp add: event_ok_def)
    qed
    then show ?thesis using Some True by (simp add: resumeEvent_def Let_def)
  qed
qed

lemma fold_preserves:
  assumes "\<And>x s. P s \<Longrightarrow> P (f x s)" and "P s"
  shows "P (fold f xs s)"
  using assms(2) by (induction xs arbitrary: s) (auto intro: assms(1))

lemma sched_inv_pauseAll: "sched_inv strict s \<Longrightarrow> sched_inv strict (pauseAll clock s)"
  unfolding pauseAll_def by (rule fold_preserves) (auto intro: sched_inv_pauseEvent)

lemma sched_inv_removeAllByType: "sched_inv strict s \<Longrightarrow> sched_inv strict (removeAllByType ty s)"
  unfolding removeAllByType_def by (rule fold_preserves) (auto intro: sched_inv_removeEvent)

lemma sched_inv_activate: "sched_inv strict s \<Longrightarrow> sched_inv strict (s\<lparr>sched_status := Running\<rparr>)"
  by (auto simp: sched_inv_def frame_ok_def entry_ok_def event_ok_def)

lemma sched_inv_resumeAll_begin: "sched_inv strict s \<Longrightarrow> sched_inv strict (resumeAll_begin s)"
  unfolding resumeAll_begin_def by (rule sched_inv_activate)

lemma sched_inv_resumeAll_uninterrupted:
  "sched_inv strict s \<Longrightarrow> sched_inv strict (resumeAll_uninterrupted clock s)"
  unfolding resumeAll_uninterrupted_def Let_def
  by (rule fold_preserves) (auto intro: sched_inv_resumeEvent sched_inv_activate)

lemma sched_inv_registerCallback:
  "sched_inv strict s \<Longrightarrow> sched_inv strict (snd (registerCallback name s))"
  by (auto simp: registerCallback_def sched_inv_def frame_ok_def entry_ok_def event_ok_def)

lemma sched_inv_executing:
  "sched_inv strict s \<Longrightarrow> r < length (heap s) \<Longrightarrow> lookupName (heap s ! r) \<in> set (callbackMap s) \<Longrightarrow>
     sched_status s \<noteq> Paused \<Longrightarrow> sched_inv strict (s\<lparr>executing := executing s @ [r]\<rparr>)"
  unfolding sched_inv_def frame_ok_def entry_ok_def by auto

text \<open>
  The first half of \<open>runEvent\<close>, on an object whose handle is already in the state
  \<open>g\<close> demands of a running event (\<open>g\<close> is the clearing of the handle in
  \<open>executeImmediately\<close>, the identity when a timer fires).
\<close>

lemma sched_inv_start:
  assumes inv: "sched_inv strict s" and r: "r < length (heap s)" and act: "sched_status s \<noteq> Paused"
    and reg: "lookupName (heap s ! r) \<in> set (callbackMap s)"
    and id: "\<And>e. event_id (g e) = event_id e"
    and nm: "\<And>e. lookupName (g e) = lookupName e"
    and jb: "\<And>e. jobId (g e) = None \<or> jobId (g e) = jobId e"
  shows "sched_inv strict ((modify r (\<lambda>e. (g e)\<lparr>status := Running\<rparr>) s)\<lparr>executing := executing s @ [r]\<rparr>)"
proof -
  let ?s1 = "modify r (\<lambda>e. (g e)\<lparr>status := Running\<rparr>) s"
  have "sched_inv strict ?s1"
    using inv act jb by (intro sched_inv_modify) (auto simp: event_ok_def id nm)
  then have "sched_inv strict (?s1\<lparr>executing := executing ?s1 @ [r]\<rparr>)"
    using r act reg by (intro sched_inv_executing) (simp_all add: nm)
  then show ?thesis by simp
qed

lemma sched_inv_runEvent_begin:
  assumes "sched_inv strict s" and "r < length (heap s)" and "sched_status s \<noteq> Paused"
  shows "sched_inv strict (snd (runEvent_begin r s))"
proof (cases "lookupName (heap s ! r) \<in> set (callbackMap s)")
  case False
  then show ?thesis using assms by (simp add: runEvent_begin_def)
next
  case True
  have "sched_inv strict ((modify r (\<lambda>e. (id e)\<lparr>status := Running\<rparr>) s)\<lparr>executing := executing s @ [r]\<rparr>)"
    using assms True by (intro sched_inv_start) simp_all
  then show ?thesis using True by (simp add: runEvent_begin_def)
qed

lemma sched_inv_executeImmediately:
  assumes "sched_inv strict s"
  shows "sched_inv strict (snd (executeImmediately i s))"
proof (cases "map_of (eventMap s) i")
  case None
  then show ?thesis using assms by (simp add: executeImmediately_def)
next
  case (Some r)
  show ?thesis
  proof (cases "status (heap s ! r) = Scheduled")
    case False
    then show ?thesis using assms Some by (simp add: executeImmediately_def)
  next
    case True
    have r: "r < length (heap s)"
      and e: "event_ok strict (callbackMap s) (sched_status s) (heap s ! r)"
      using sched_inv_entry [OF assms Some] by auto
    have act: "sched_status s \<noteq> Paused" using e True by (auto simp: event_ok_def)
    show ?thesis
    proof (cases "jobId (heap s ! r)")
      case None
      then have "snd (executeImmediately i s) = snd (runEvent_begin r s)"
        using Some True by (simp add: executeImmediately_def)
      then show ?thesis using assms r act by (simp add: sched_inv_runEvent_begin)
    next
      case (Some h)
      let ?s0 = "clearTimeout h s"
      have inv0: "sched_inv strict ?s0"
        using sched_inv_timers [OF assms, of h] by (simp add: clearTimeout_def)
      show ?thesis
      proof (cases "lookupName (heap s ! r) \<in> set (callbackMap s)")
        case True
        have "sched_inv strict
                ((modify r (\<lambda>e. (e\<lparr>jobId := None\<rparr>)\<lparr>status := Running\<rparr>) ?s0)
                   \<lparr>executing := executing ?s0 @ [r]\<rparr>)"
          using inv0 r act True by (intro sched_inv_start) simp_all
        moreover have "snd (executeImmediately i s) =
                (modify r (\<lambda>e. (e\<lparr>jobId := None\<rparr>)\<lparr>status := Running\<rparr>) ?s0)
                   \<lparr>executing := executing ?s0 @ [r]\<rparr>"
          using \<open>map_of (eventMap s) i = Some r\<close> \<open>status (heap s ! r) = Scheduled\<close> Some True r
          by (simp add: executeImmediately_def runEvent_begin_def modify_def)
        ultimately show ?thesis by simp
      next
        case False
        then have ns: "\<not> strict" using e by (auto simp: event_ok_def)
        have "sched_inv strict (modify r (\<lambda>e. e\<lparr>jobId := None\<rparr>) ?s0)"
          using inv0 ns by (intro sched_inv_modify) (simp_all add: event_ok_def)
        moreover have "snd (executeImmediately i s) = modify r (\<lambda>e. e\<lparr>jobId := None\<rparr>) ?s0"
          using \<open>map_of (eventMap s) i = Some r\<close> \<open>status (heap s ! r) = Scheduled\<close> Some False r
          by (simp add: executeImmediately_def runEvent_begin_def)
        ultimately show ?thesis by simp
      qed
    qed
  qed
qed

lemma snd_runEvent_finish:
  "snd (runEvent_finish now r s) =
     (let s1 = modify r (\<lambda>e. e\<lparr>status := Done, jobId := None\<rparr>) s; e = heap s1 ! r
      in if autoRepeat e
         then snd (addEvent now (event_id e) (lookupName e) (params e) (duration e) True s1)
         else removeEvent (event_id e) s1)"
  by (simp add: runEvent_finish_def Let_def split: prod.splits sum.splits)

lemma sched_inv_runEvent_finish:
  assumes "sched_inv strict s"
  shows "sched_inv strict (snd (runEvent_finish now r s))"
proof -
  let ?s1 = "modify r (\<lambda>e. e\<lparr>status := Done, jobId := None\<rparr>) s"
  have 1: "sched_inv strict ?s1"
    using assms by (intro sched_inv_modify) (simp_all add: event_ok_def)
  show ?thesis
    unfolding snd_runEvent_finish Let_def
    using sched_inv_addEvent [OF 1] sched_inv_removeEvent [OF 1] by simp
qed

lemma event_of_json_lookupName:
  "event_of_json j = Some e \<Longrightarrow> get_str j ''lookupName'' = Some (lookupName e)"
  by (auto simp: event_of_json_def split: option.splits)

lemma sched_inv_load_record:
  assumes "sched_inv strict s" and "load_record j s = Some (res, s1)"
    and "strict \<longrightarrow> record_registered s j"
  shows "sched_inv strict s1 \<and> callbackMap s1 = callbackMap s"
  using assms
  by (auto simp: load_record_def allocate_def record_registered_def
      dest!: event_of_json_lookupName intro!: sched_inv_schedule_new
      split: if_splits option.splits)

lemma record_registered_cong:
  "callbackMap s1 = callbackMap s \<Longrightarrow> record_registered s1 j = record_registered s j"
  by (simp add: record_registered_def split: option.splits)

lemma sched_inv_load_records:
  "sched_inv strict s \<Longrightarrow> load_records js s = Some (res, s1) \<Longrightarrow>
     (strict \<longrightarrow> list_all (record_registered s) js) \<Longrightarrow> sched_inv strict s1"
proof (induction js arbitrary: s)
  case Nil
  then show ?case by simp
next
  case (Cons j js)
  from Cons.prems(2) obtain res2 s2 where l: "load_record j s = Some (res2, s2)"
    and rest: "(\<exists>e. res2 = Inl e \<and> s1 = s2) \<or> load_records js s2 = Some (res, s1)"
    by (auto split: option.splits sum.splits)
  have 2: "sched_inv strict s2 \<and> callbackMap s2 = callbackMap s"
    using Cons.prems(1) l Cons.prems(3) by (intro sched_inv_load_record [of strict s j res2]) auto
  then have 3: "strict \<longrightarrow> list_all (record_registered s2) js"
    using Cons.prems(3) by (simp add: record_registered_cong [of s2 s] cong: list.pred_cong)
  from rest show ?case
  proof
    assume "\<exists>e. res2 = Inl e \<and> s1 = s2"
    with 2 show ?thesis by auto
  next
    assume "load_records js s2 = Some (res, s1)"
    with 2 3 show ?thesis by (intro Cons.IH [of s2]) auto
  qed
qed

lemma sched_inv_step:
  assumes "sched_inv strict s" and "step a s = Some s1" and "strict \<longrightarrow> loads_registered a s"
  shows "sched_inv strict s1"
proof (cases a)
  case (Fire h)
  with assms(2) obtain r d where h: "h < length (timers s)" and t: "timers s ! h = Some (r, d)"
    and s1: "s1 = snd (runEvent_begin r (s\<lparr>timers := (timers s)[h := None]\<rparr>))"
    by (auto split: if_splits option.splits)
  from h t have "Some (r, d) \<in> set (timers s)" by (metis nth_mem)
  with assms(1) have r: "r < length (heap s)" and act: "sched_status s \<noteq> Paused"
    by (auto simp: sched_inv_def frame_ok_def)
  have "sched_inv strict (s\<lparr>timers := (timers s)[h := None]\<rparr>)"
    using assms(1) by (rule sched_inv_timers)
  then show ?thesis unfolding s1 using r act by (intro sched_inv_runEvent_begin) auto
next
  case (Complete now r)
  have "sched_inv strict (s\<lparr>executing := remove1 r (executing s)\<rparr>)"
    using assms(1) unfolding sched_inv_def frame_ok_def entry_ok_def
    by (auto dest: notin_set_remove1)
  then show ?thesis using assms(2) Complete
    by (auto split: if_splits intro: sched_inv_runEvent_finish)
next
  case (HandlerFails r)
  have "sched_inv strict (s\<lparr>executing := remove1 r (executing s)\<rparr>)"
    using assms(1) unfolding sched_inv_def frame_ok_def entry_ok_def
    by (auto dest: notin_set_remove1)
  then show ?thesis using assms(2) HandlerFails by (auto split: if_splits)
next
  case (LoadEvents data)
  show ?thesis
  proof (cases data)
    case None
    then show ?thesis using assms LoadEvents by (simp add: loadEvents_def)
  next
    case (Some v)
    show ?thesis
    proof (cases "\<exists>js. v = JArr js")
      case False
      then show ?thesis using assms LoadEvents Some
        by (cases v) (auto simp: loadEvents_def)
    next
      case True
      then obtain js where v: "v = JArr js" by blast
      then show ?thesis using assms LoadEvents Some
        by (auto simp: loadEvents_def dest: sched_inv_load_records)
    qed
  qed
qed (use assms in \<open>auto intro: sched_inv_registerCallback sched_inv_addEvent sched_inv_removeEvent
      sched_inv_pauseEvent sched_inv_resumeEvent sched_inv_pauseAll
      sched_inv_resumeAll_uninterrupted sched_inv_resumeAll_begin
      sched_inv_removeAllByType sched_inv_executeImmediately\<close>)

lemma sched_inv_init: "sched_inv strict init"
  by (simp add: sched_inv_def frame_ok_def init_def)

lemma sched_inv_exec:
  "sched_inv strict s \<Longrightarrow> exec acts s = Some s1 \<Longrightarrow> (strict \<longrightarrow> run_registered acts s) \<Longrightarrow>
     sched_inv strict s1"
proof (induction acts arbitrary: s)
  case Nil
  then show ?case by simp
next
  case (Cons a acts)
  from Cons.prems(2) obtain s2 where st: "step a s = Some s2" and rest: "exec acts s2 = Some s1"
    by (auto split: option.splits)
  have "sched_inv strict s2"
    using Cons.prems(1) st Cons.prems(3) by (intro sched_inv_step [of strict s a s2]) auto
  moreover have "strict \<longrightarrow> run_registered acts s2" using Cons.prems(3) st by simp
  ultimately show ?case using rest by (intro Cons.IH) auto
qed

lemma reachable_inv: "exec acts init = Some s \<Longrightarrow> sched_inv False s"
  using sched_inv_exec [OF sched_inv_init, of acts s False] by simp

section \<open>The global status is never set back to paused\<close>

lemma fold_status:
  assumes "\<And>x s. sched_status (f x s) = sched_status s"
  shows "sched_status (fold f xs s) = sched_status s"
  by (induction xs arbitrary: s) (simp_all add: assms)

lemma pauseEvent_status [simp]: "sched_status (pauseEvent now i s) = sched_status s"
  by (simp add: pauseEvent_def split: option.splits)

lemma resumeEvent_status [simp]: "sched_status (resumeEvent now i s) = sched_status s"
  by (simp add: resumeEvent_def Let_def split: option.splits)

lemma pauseAll_status [simp]: "sched_status (pauseAll clock s) = sched_status s"
  by (simp add: pauseAll_def fold_status)

lemma removeAllByType_status [simp]: "sched_status (removeAllByType ty s) = sched_status s"
  by (simp add: removeAllByType_def fold_status)

lemma resumeAll_uninterrupted_status [simp]:
  "sched_status (resumeAll_uninterrupted clock s) = Running"
  by (simp add: resumeAll_uninterrupted_def Let_def fold_status)

lemma resumeAll_begin_status [simp]: "sched_status (resumeAll_begin s) = Running"
  by (simp add: resumeAll_begin_def)

lemma runEvent_begin_status [simp]: "sched_status (snd (runEvent_begin r s)) = sched_status s"
  by (simp add: runEvent_begin_def)

lemma runEvent_finish_status [simp]: "sched_status (snd (runEvent_finish now r s)) = sched_status s"
  by (simp add: snd_runEvent_finish Let_def)

lemma executeImmediately_status [simp]: "sched_status (snd (executeImmediately i s)) = sched_status s"
  by (simp add: executeImmediately_def Let_def split: option.splits)

lemma load_record_status:
  "load_record j s = Some (res, s1) \<Longrightarrow> sched_status s1 = sched_status s"
  by (auto simp: load_record_def allocate_def split: if_splits option.splits)

lemma load_records_status:
  "load_records js s = Some (res, s1) \<Longrightarrow> sched_status s1 = sched_status s"
  by (induction js arbitrary: s)
     (auto split: option.splits sum.splits dest: load_record_status)

lemma loadEvents_status: "loadEvents data s = Some (res, s1) \<Longrightarrow> sched_status s1 = sched_status s"
  by (auto simp: loadEvents_def split: option.splits jsvalue.splits dest: load_records_status)

lemma step_active:
  "step a s = Some s1 \<Longrightarrow> sched_status s \<noteq> Paused \<Longrightarrow> sched_status s1 \<noteq> Paused"
  by (cases a) (auto simp: registerCallback_def split: if_splits option.splits dest: loadEvents_status)

lemma exec_active:
  "exec acts s = Some s1 \<Longrightarrow> sched_status s \<noteq> Paused \<Longrightarrow> sched_status s1 \<noteq> Paused"
  by (induction acts arbitrary: s) (auto split: option.splits dest: step_active)

section \<open>The second half of the firing path\<close>

lemma case_result_Inr:
  "fst x = Inr v \<Longrightarrow>
     (case x of (Inl err, s2) \<Rightarrow> (Inl err, s2) | (Inr _, s2) \<Rightarrow> (Inr (), s2)) = (Inr (), snd x)"
  by (cases x) auto

lemma runEvent_finish_effect:
  assumes inv: "sched_inv False s" and r: "r < length (heap s)"
    and reg: "lookupName (heap s ! r) \<in> set (callbackMap s)"
  shows "fst (runEvent_finish now r s) = Inr ()
    \<and> status (heap (snd (runEvent_finish now r s)) ! r) = Done
    \<and> jobId (heap (snd (runEvent_finish now r s)) ! r) = None
    \<and> (if autoRepeat (heap s ! r)
       then map_of (eventMap (snd (runEvent_finish now r s))) (event_id (heap s ! r))
              = Some (length (heap s))
          \<and> heap (snd (runEvent_finish now r s)) ! length (heap s) =
              \<lparr>event_id = event_id (heap s ! r), lookupName = lookupName (heap s ! r),
               params = params (heap s ! r),
               status = (if sched_status s = Paused then Paused else Scheduled),
               addedAtTime = now, remainingTime = duration (heap s ! r),
               duration = duration (heap s ! r), autoRepeat = True,
               jobId = (if sched_status s = Paused then None else Some (length (timers s)))\<rparr>
          \<and> (sched_status s \<noteq> Paused \<longrightarrow>
               length (timers (snd (runEvent_finish now r s))) = Suc (length (timers s))
               \<and> timers (snd (runEvent_finish now r s)) ! length (timers s)
                   = Some (length (heap s), duration (heap s ! r)))
       else map_of (eventMap (snd (runEvent_finish now r s))) (event_id (heap s ! r)) = None)"
proof -
  let ?s1 = "modify r (\<lambda>e. e\<lparr>status := Done, jobId := None\<rparr>) s"
  have inv1: "sched_inv False ?s1"
    using inv by (intro sched_inv_modify) (simp_all add: event_ok_def)
  then have t1: "table_ok ?s1" by (rule sched_inv_table_ok)
  have e1: "heap ?s1 ! r = (heap s ! r)\<lparr>status := Done, jobId := None\<rparr>"
    using r by simp
  have reg1: "lookupName (heap s ! r) \<in> set (callbackMap ?s1)"
    using reg by simp
  have len1: "length (heap ?s1) = length (heap s)" by simp
  show ?thesis
  proof (cases "autoRepeat (heap s ! r)")
    case False
    then show ?thesis using e1 r
      by (simp add: runEvent_finish_def Let_def AList.delete_conv')
  next
    case True
    let ?a = "addEvent now (event_id (heap s ! r)) (lookupName (heap s ! r))
                (params (heap s ! r)) (duration (heap s ! r)) True ?s1"
    have res: "runEvent_finish now r s = (Inr (), snd ?a)"
      using True e1 addEvent_registered(1) [OF reg1 t1, of now "event_id (heap s ! r)"
          "params (heap s ! r)" "duration (heap s ! r)" True]
      by (simp add: runEvent_finish_def Let_def case_result_Inr)
    show ?thesis
      unfolding res using True r e1
      by (simp add: addEvent_registered [OF reg1 t1] nth_append AList.update_conv' len1
               del: modify_simps(1))
  qed
qed

lemma demo_repeating_run:
  "exec [RegisterCallback ''ping'', ResumeAll (\<lambda>_. 0),
         AddEvent 0 ''e1'' ''ping'' (JObj []) 100 True, Fire 0] init = Some demo_repeating"
  by (simp add: demo_repeating_def op_defs)

lemma addEvent_active:
  assumes "name \<in> set (callbackMap s)" and "table_ok s" and "sched_status s \<noteq> Paused"
  shows "fst (addEvent now i name ps d rep s) = Inr i
    \<and> lookup_event (snd (addEvent now i name ps d rep s)) i =
        Some \<lparr>event_id = i, lookupName = name, params = ps, status = Scheduled,
               addedAtTime = now, remainingTime = d, duration = d, autoRepeat = rep,
               jobId = Some (length (timers s))\<rparr>
    \<and> timers (snd (addEvent now i name ps d rep s)) =
        timers (removeEvent i s) @ [Some (length (heap s), d)]"
  using assms
  by (simp add: addEvent_registered lookup_event_def AList.update_conv')

lemma finish_readd_active:
  assumes inv: "sched_inv False s" and ex: "r \<in> set (executing s)"
    and rep: "autoRepeat (heap s ! r)"
  shows "map_of (eventMap (snd (runEvent_finish now r s))) (event_id (heap s ! r))
           = Some (length (heap s))
         \<and> status (heap (snd (runEvent_finish now r s)) ! length (heap s)) = Scheduled
         \<and> jobId (heap (snd (runEvent_finish now r s)) ! length (heap s))
             = Some (length (timers s))"
proof -
  from inv ex have r: "r < length (heap s)"
    and reg: "lookupName (heap s ! r) \<in> set (callbackMap s)"
    and act: "sched_status s \<noteq> Paused"
    by (auto simp: sched_inv_def frame_ok_def)
  show ?thesis
    using runEvent_finish_effect [OF inv r reg, of now] rep act by simp
qed

text \<open>
  Claim C8. In every state the scheduler can reach, when the handler of an event
  object \<open>r\<close> completes, \<open>runEvent_finish\<close> does not throw; it sets the
  status of the object to \<open>Done\<close> and clears its timer handle; then, if
  \<open>autoRepeat\<close> is set, a new object with the same id, handler name, parameters
  and duration and with \<open>autoRepeat = True\<close> is stored under the id, scheduled,
  with a timer that did not exist before and whose delay is the duration; otherwise
  no event is stored under the id any more.
\<close>

theorem runEvent_finish_postcondition:
  assumes "exec acts init = Some s" and "r \<in> set (executing s)"
  shows "fst (runEvent_finish now r s) = Inr ()
    \<and> status (heap (snd (runEvent_finish now r s)) ! r) = Done
    \<and> jobId (heap (snd (runEvent_finish now r s)) ! r) = None
    \<and> (if autoRepeat (heap s ! r)
       then map_of (eventMap (snd (runEvent_finish now r s))) (event_id (heap s ! r))
              = Some (length (heap s))
          \<and> heap (snd (runEvent_finish now r s)) ! length (heap s) =
              \<lparr>event_id = event_id (heap s ! r), lookupName = lookupName (heap s ! r),
               params = params (heap s ! r), status = Scheduled,
               addedAtTime = now, remainingTime = duration (heap s ! r),
               duration = duration (heap s ! r), autoRepeat = True,
               jobId = Some (length (timers s))\<rparr>
          \<and> length (timers (snd (runEvent_finish now r s))) = Suc (length (timers s))
          \<and> timers (snd (runEvent_finish now r s)) ! length (timers s)
               = Some (length (heap s), duration (heap s ! r))
       else map_of (eventMap (snd (runEvent_finish now r s))) (event_id (heap s ! r)) = None)"
proof -
  have inv: "sched_inv False s" using assms(1) by (rule reachable_inv)
  with assms(2) have r: "r < length (heap s)"
    and reg: "lookupName (heap s ! r) \<in> set (callbackMap s)"
    and act: "sched_status s \<noteq> Paused"
    by (auto simp: sched_inv_def frame_ok_def)
  show ?thesis
    using runEvent_finish_effect [OF inv r reg, of now] act by (simp split: if_splits)
qed


theorem runEvent_finish_postcondition_witness:
  "exec [RegisterCallback ''ping'', ResumeAll (\<lambda>_. 0),
         AddEvent 0 ''e1'' ''ping'' (JObj []) 100 True, Fire 0] init = Some demo_repeating
   \<and> 0 \<in> set (executing demo_repeating)
   \<and> fst (runEvent_finish 120 0 demo_repeating) = Inr ()
   \<and> status (heap (snd (runEvent_finish 120 0 demo_repeating)) ! 0) = Done
   \<and> map_of (eventMap (snd (runEvent_finish 120 0 demo_repeating))) ''e1'' = Some 1
   \<and> timers (snd (runEvent_finish 120 0 demo_repeating)) ! 1 = Some (1, 100)"
proof -
  have h2: "0 \<in> set (executing demo_repeating)" by (simp add: demo_repeating_def)
  show ?thesis
    using runEvent_finish_postcondition [OF demo_repeating_run h2, of 120] demo_repeating_run h2
    by (simp add: demo_repeating_def)
qed

section \<open>Pausing all events leaves the global status alone\<close>

text \<open>
  Claim C9. \<open>pauseAll\<close> does not change the global status. If the scheduler
  (in a reachable state) was not globally paused before, it is not globally paused
  after \<open>pauseAll\<close> and after whatever happens then, during or after the wait
  for idle; an event added there with a registered handler is stored as
  \<open>Scheduled\<close> with a new timer, and so is the event re-added when a handler
  of an auto-repeat event completes.
\<close>

theorem pauseAll_keeps_global_status:
  assumes "exec pre init = Some s" and "sched_status s \<noteq> Paused"
    and "exec acts (pauseAll clock s) = Some s1" and "name \<in> set (callbackMap s1)"
  shows "sched_status (pauseAll clock s) = sched_status s
    \<and> sched_status s1 \<noteq> Paused
    \<and> (fst (addEvent now i name ps d rep s1) = Inr i
    \<and> lookup_event (snd (addEvent now i name ps d rep s1)) i =
        Some \<lparr>event_id = i, lookupName = name, params = ps, status = Scheduled,
               addedAtTime = now, remainingTime = d, duration = d, autoRepeat = rep,
               jobId = Some (length (timers s1))\<rparr>
    \<and> timers (snd (addEvent now i name ps d rep s1)) =
        timers (removeEvent i s1) @ [Some (length (heap s1), d)])
    \<and> (\<forall>r \<in> set (executing s1). autoRepeat (heap s1 ! r) \<longrightarrow>
         map_of (eventMap (snd (runEvent_finish now r s1))) (event_id (heap s1 ! r))
           = Some (length (heap s1))
         \<and> status (heap (snd (runEvent_finish now r s1)) ! length (heap s1)) = Scheduled
         \<and> jobId (heap (snd (runEvent_finish now r s1)) ! length (heap s1))
             = Some (length (timers s1)))"
proof -
  have "sched_inv False s" using assms(1) by (rule reachable_inv)
  then have "sched_inv False (pauseAll clock s)" by (rule sched_inv_pauseAll)
  then have inv: "sched_inv False s1" using assms(3) by (rule sched_inv_exec) simp
  then have t: "table_ok s1" by (rule sched_inv_table_ok)
  have act: "sched_status s1 \<noteq> Paused"
    by (rule exec_active [OF assms(3)]) (simp add: assms(2))
  have c1: "sched_status (pauseAll clock s) = sched_status s" by simp
  note c3 = addEvent_active [OF assms(4) t act, of now i ps d rep]
  have c6: "\<forall>r \<in> set (executing s1). autoRepeat (heap s1 ! r) \<longrightarrow>
         map_of (eventMap (snd (runEvent_finish now r s1))) (event_id (heap s1 ! r))
           = Some (length (heap s1))
         \<and> status (heap (snd (runEvent_finish now r s1)) ! length (heap s1)) = Scheduled
         \<and> jobId (heap (snd (runEvent_finish now r s1)) ! length (heap s1))
             = Some (length (timers s1))"
    using finish_readd_active [OF inv] by blast
  show ?thesis
    apply (rule conjI) apply (rule c1)
    apply (rule conjI) apply (rule act)
    apply (rule conjI) apply (rule c3)
    apply (rule c6)
    done
qed

theorem pauseAll_keeps_global_status_witness:
  "exec [RegisterCallback ''ping'', ResumeAll (\<lambda>_. 0),
         AddEvent 0 ''e1'' ''ping'' (JObj []) 100 True, Fire 0] init = Some demo_repeating
   \<and> sched_status demo_repeating \<noteq> Paused
   \<and> exec [Complete 120 0] (pauseAll (\<lambda>_. 110) demo_repeating)
       = Some (snd (runEvent_finish 120 0 (demo_repeating\<lparr>executing := []\<rparr>)))
   \<and> ''ping'' \<in> set (callbackMap (snd (runEvent_finish 120 0 (demo_repeating\<lparr>executing := []\<rparr>))))
   \<and> sched_status (pauseAll (\<lambda>_. 110) demo_repeating) = Running
   \<and> map_option status
       (lookup_event (snd (runEvent_finish 120 0 (demo_repeating\<lparr>executing := []\<rparr>))) ''e1'')
       = Some Scheduled
   \<and> map_option status
       (lookup_event (snd (addEvent 130 ''e2'' ''ping'' JNull 50 False
          (snd (runEvent_finish 120 0 (demo_repeating\<lparr>executing := []\<rparr>))))) ''e2'')
       = Some Scheduled"
proof -
  let ?s1 = "snd (runEvent_finish 120 0 (demo_repeating\<lparr>executing := []\<rparr>))"
  have h2: "sched_status demo_repeating \<noteq> Paused" by (simp add: demo_repeating_def)
  have h3: "exec [Complete 120 0] (pauseAll (\<lambda>_. 110) demo_repeating) = Some ?s1"
    by (simp add: demo_repeating_def op_defs)
  have h4: "''ping'' \<in> set (callbackMap ?s1)"
    by (simp add: demo_repeating_def op_defs)
  show ?thesis
    using pauseAll_keeps_global_status [OF demo_repeating_run h2 h3 h4, of 130 "''e2''" JNull 50 False]
      demo_repeating_run h2 h3 h4
    by (simp add: demo_repeating_def op_defs)
qed

section \<open>Timer handles and statuses\<close>

text \<open>
  Claim C3, as stated, fails when a timer fires: \<open>runEvent\<close> sets the status to
  \<open>Running\<close> and leaves the handle of the expired timer in the object until the
  handler has completed. It also fails after \<open>executeImmediately\<close> on a loaded
  event whose handler is not registered: the handle is cleared, \<open>runEvent\<close>
  throws, and the event stays \<open>Scheduled\<close> without a handle.
\<close>

theorem handle_iff_counterexample:
  "handle_iff demo_scheduled
   \<and> step (Fire 0) demo_scheduled = Some demo_running
   \<and> \<not> handle_iff demo_running
   \<and> exec [LoadEvents (Some (JArr [demo_record])), ResumeAll (\<lambda>_. 0), ExecuteImmediately ''e1''] init
       = Some demo_orphan
   \<and> \<not> handle_iff demo_orphan"
  apply (simp add: handle_iff_def demo_scheduled_eq demo_running_def runEvent_begin_def modify_def)
  apply (simp add: demo_orphan_def loadEvents_def load_record_def demo_record_event)
  apply (simp add: demo_record_def json_field_def op_defs)
  done

text \<open>
  Claim C3, amended. In every state reached from a new scheduler by public operations,
  timers firing and handlers completing or failing, provided every event that
  \<open>loadEvents\<close> stored named a registered handler: an event of the table whose
  status is not \<open>Running\<close> has a timer handle iff its status is
  \<open>Scheduled\<close> and the scheduler is not globally paused; and whenever an event
  (running or not) has a handle, the scheduler is not globally paused.
\<close>

theorem handle_invariant:
  assumes "exec acts init = Some s" and "run_registered acts init"
  shows "\<forall>(k, r) \<in> set (eventMap s).
           (status (heap s ! r) \<noteq> Running \<longrightarrow>
              (jobId (heap s ! r) \<noteq> None \<longleftrightarrow>
                 status (heap s ! r) = Scheduled \<and> sched_status s \<noteq> Paused))
           \<and> (jobId (heap s ! r) \<noteq> None \<longrightarrow> sched_status s \<noteq> Paused)"
proof -
  have "sched_inv True s"
    using sched_inv_init assms(1) by (rule sched_inv_exec) (simp add: assms(2))
  then show ?thesis
    by (auto simp: sched_inv_def entry_ok_def event_ok_def)
qed

theorem handle_invariant_witness:
  "exec [RegisterCallback ''ping'',
         LoadEvents (Some (JArr [json_of_event (heap demo_scheduled ! 0)])),
         ResumeAll (\<lambda>_. 5), AddEvent 7 ''e2'' ''ping'' JNull 30 False, PauseEvent 9 ''e2'', Fire 0] init
     = Some \<lparr>heap = [\<lparr>event_id = ''e1'', lookupName = ''ping'', params = JObj [],
                status = Running, addedAtTime = 5, remainingTime = 100, duration = 100,
                autoRepeat = False, jobId = Some 0\<rparr>,
               \<lparr>event_id = ''e2'', lookupName = ''ping'', params = JNull,
                status = Paused, addedAtTime = 7, remainingTime = 28, duration = 30,
                autoRepeat = False, jobId = None\<rparr>],
      timers = [None, None], eventMap = [(''e1'', 0), (''e2'', 1)], callbackMap = [''ping''],
      sched_status = Running, executing = [0]\<rparr>
   \<and> run_registered [RegisterCallback ''ping'',
         LoadEvents (Some (JArr [json_of_event (heap demo_scheduled ! 0)])),
         ResumeAll (\<lambda>_. 5), AddEvent 7 ''e2'' ''ping'' JNull 30 False, PauseEvent 9 ''e2'', Fire 0] init"
proof -
  let ?acts = "[RegisterCallback ''ping'',
         LoadEvents (Some (JArr [json_of_event (heap demo_scheduled ! 0)])),
         ResumeAll (\<lambda>_. 5), AddEvent 7 ''e2'' ''ping'' JNull 30 False, PauseEvent 9 ''e2'', Fire 0]"
  let ?s = "\<lparr>heap = [\<lparr>event_id = ''e1'', lookupName = ''ping'', params = JObj [],
                status = Running, addedAtTime = 5, remainingTime = 100, duration = 100,
                autoRepeat = False, jobId = Some 0\<rparr>,
               \<lparr>event_id = ''e2'', lookupName = ''ping'', params = JNull,
                status = Paused, addedAtTime = 7, remainingTime = 28, duration = 30,
                autoRepeat = False, jobId = None\<rparr>],
      timers = [None, None], eventMap = [(''e1'', 0), (''e2'', 1)], callbackMap = [''ping''],
      sched_status = Running, executing = [0]\<rparr>"
  have h1: "exec ?acts init = Some ?s"
    by (simp add: demo_scheduled_eq op_defs json_defs)
  have h2: "run_registered ?acts init"
    by (simp add: demo_scheduled_eq op_defs json_defs record_registered_def)
  show ?thesis using handle_invariant [OF h1 h2] h1 h2 by simp
qed

section \<open>Resuming all events\<close>

lemma resumeEvent_noop:
  "map_of (eventMap t) k = None \<Longrightarrow> resumeEvent now k t = t"
  "map_of (eventMap t) k = Some r \<Longrightarrow> status (heap t ! r) \<noteq> Paused \<Longrightarrow> resumeEvent now k t = t"
  by (simp_all add: resumeEvent_def)

lemma resumeEvent_paused:
  assumes inv: "sched_inv False t" and act: "sched_status t \<noteq> Paused"
    and k: "map_of (eventMap t) k = Some r" and p: "status (heap t ! r) = Paused"
  shows "heap (resumeEvent now k t) = (heap t)[r := rearmed now (length (timers t)) (heap t ! r)]"
    and "timers (resumeEvent now k t) = timers t @ [Some (r, remainingTime (heap t ! r))]"
    and "eventMap (resumeEvent now k t) = AList.delete k (eventMap t) @ [(k, r)]"
proof -
  have r: "r < length (heap t)" and id: "event_id (heap t ! r) = k"
    and e: "event_ok False (callbackMap t) (sched_status t) (heap t ! r)"
    using sched_inv_entry [OF inv k] by auto
  have nojob: "jobId (heap t ! r) = None" using e p by (auto simp: event_ok_def)
  let ?s1 = "modify r (\<lambda>e. e\<lparr>status := Scheduled, addedAtTime := now\<rparr>) t"
  have res: "resumeEvent now k t = scheduleEvent r (Some (remainingTime (heap t ! r))) ?s1"
    using k p r by (simp add: resumeEvent_def Let_def)
  have r1: "r < length (heap ?s1)" using r by simp
  have tm: "timers (removeEvent k ?s1) = timers t"
    using k r nojob by (simp add: timers_removeEvent)
  show "heap (resumeEvent now k t) = (heap t)[r := rearmed now (length (timers t)) (heap t ! r)]"
    unfolding res using r act
    by (cases "heap t ! r") (simp add: scheduleEvent_simps(1) [OF r1] rearmed_def)
  show "timers (resumeEvent now k t) = timers t @ [Some (r, remainingTime (heap t ! r))]"
    unfolding res using r act id tm by (simp add: scheduleEvent_simps(2) [OF r1])
  show "eventMap (resumeEvent now k t) = AList.delete k (eventMap t) @ [(k, r)]"
    unfolding res using r id by (simp add: scheduleEvent_simps(3) [OF r1] update_delete)
qed

lemma resumeEvent_frame [simp]:
  "callbackMap (resumeEvent now k t) = callbackMap t"
  "executing (resumeEvent now k t) = executing t"
  "length (heap (resumeEvent now k t)) = length (heap t)"
  by (simp_all add: resumeEvent_def Let_def split: option.splits)

lemma resumeEvent_other:
  assumes inv: "sched_inv False t" and act: "sched_status t \<noteq> Paused" and ne: "k' \<noteq> k"
  shows "map_of (eventMap (resumeEvent now k t)) k' = map_of (eventMap t) k'"
    and "map_of (eventMap t) k' = Some r' \<Longrightarrow> heap (resumeEvent now k t) ! r' = heap t ! r'"
proof -
  show "map_of (eventMap (resumeEvent now k t)) k' = map_of (eventMap t) k'"
  proof (cases "map_of (eventMap t) k")
    case None then show ?thesis by (simp add: resumeEvent_noop)
  next
    case (Some r)
    show ?thesis
    proof (cases "status (heap t ! r) = Paused")
      case False then show ?thesis using Some by (simp add: resumeEvent_noop)
    next
      case True
      show ?thesis using ne
        by (simp add: resumeEvent_paused(3) [OF inv act Some True] AList.delete_conv' map_add_def
                 split: option.splits)
    qed
  qed
next
  assume k': "map_of (eventMap t) k' = Some r'"
  show "heap (resumeEvent now k t) ! r' = heap t ! r'"
  proof (cases "map_of (eventMap t) k")
    case None then show ?thesis by (simp add: resumeEvent_noop)
  next
    case (Some r)
    show ?thesis
    proof (cases "status (heap t ! r) = Paused")
      case False then show ?thesis using Some by (simp add: resumeEvent_noop)
    next
      case True
      have "event_id (heap t ! r) = k" "event_id (heap t ! r') = k'"
        using sched_inv_entry [OF inv Some] sched_inv_entry [OF inv k'] by auto
      with ne have "r \<noteq> r'" by auto
      then show ?thesis
        by (simp add: resumeEvent_paused(1) [OF inv act Some True])
    qed
  qed
qed

lemma demo_mixed_run:
  "exec [RegisterCallback ''ping'', ResumeAll (\<lambda>_. 0),
         AddEvent 0 ''e1'' ''ping'' (JObj []) 100 False,
         AddEvent 0 ''e2'' ''ping'' (JObj []) 200 False,
         PauseEvent 30 ''e1''] init = Some demo_mixed"
  by (simp add: demo_mixed_def op_defs)



lemma resumeAll_from_Cons:
  assumes "resumeAll_from clock during (i # ids) s = Some (calls, s1)"
  obtains s2 calls2 where "exec (during i) (resumeEvent (clock i) i s) = Some s2"
    and "resumeAll_from clock during ids s2 = Some (calls2, s1)"
    and "calls = (i, s) # calls2"
  using assms by (auto split: option.splits)

text \<open>
  An interleaved \<open>resumeAll\<close> is a run of the scheduler, so what holds of every
  reachable state holds during and after it; and with nothing in between it is the
  action \<open>ResumeAll\<close>.
\<close>

lemma exec_append:
  "exec (xs @ ys) s = (case exec xs s of None \<Rightarrow> None | Some s1 \<Rightarrow> exec ys s1)"
  by (induction xs arbitrary: s) (simp_all split: option.splits)

lemma resumeAll_from_run:
  "resumeAll_from clock during ids s = Some (calls, s1) \<Longrightarrow>
     exec (concat (map (\<lambda>i. ResumeEvent (clock i) i # during i) ids)) s = Some s1"
proof (induction ids arbitrary: s calls)
  case Nil
  then show ?case by simp
next
  case (Cons i ids)
  from Cons.prems obtain s2 calls2
    where ex: "exec (during i) (resumeEvent (clock i) i s) = Some s2"
      and rest: "resumeAll_from clock during ids s2 = Some (calls2, s1)"
    by (rule resumeAll_from_Cons)
  show ?case using ex Cons.IH [OF rest] by (simp add: exec_append)
qed

lemma resumeAll_run:
  "resumeAll clock during s = Some (calls, s1) \<Longrightarrow>
     exec (ResumeAllBegin
             # concat (map (\<lambda>i. ResumeEvent (clock i) i # during i) (map fst (eventMap s)))) s
       = Some s1"
proof -
  assume "resumeAll clock during s = Some (calls, s1)"
  then have "resumeAll_from clock during (map fst (eventMap s)) (resumeAll_begin s)
               = Some (calls, s1)"
    by (simp add: resumeAll_def)
  then have "exec (concat (map (\<lambda>i. ResumeEvent (clock i) i # during i) (map fst (eventMap s))))
               (resumeAll_begin s) = Some s1"
    by (rule resumeAll_from_run)
  then show ?thesis by (simp del: map_map)
qed

lemma resumeAll_from_alone:
  "\<exists>calls. resumeAll_from clock (\<lambda>i. []) ids s
             = Some (calls, fold (\<lambda>i. resumeEvent (clock i) i) ids s)"
proof (induction ids arbitrary: s)
  case Nil
  show ?case by simp
next
  case (Cons i ids)
  from Cons [of "resumeEvent (clock i) i s"] obtain calls
    where "resumeAll_from clock (\<lambda>i. []) ids (resumeEvent (clock i) i s)
             = Some (calls, fold (\<lambda>i. resumeEvent (clock i) i) ids (resumeEvent (clock i) i s))"
    by blast
  then show ?case by simp
qed

lemma resumeAll_alone:
  "\<exists>calls. resumeAll clock (\<lambda>i. []) s = Some (calls, resumeAll_uninterrupted clock s)"
  using resumeAll_from_alone [of clock "map fst (eventMap s)" "resumeAll_begin s"]
  by (simp add: resumeAll_def resumeAll_uninterrupted_def resumeAll_begin_def)

lemma resumeAll_reachable:
  assumes "exec acts init = Some s" and "resumeAll clock during s = Some (calls, s1)"
  shows "\<exists>acts1. exec acts1 init = Some s1"
proof -
  have "exec (acts @ ResumeAllBegin
          # concat (map (\<lambda>i. ResumeEvent (clock i) i # during i) (map fst (eventMap s)))) init
        = Some s1"
    unfolding exec_append using assms(1) resumeAll_run [OF assms(2)] by simp
  then show ?thesis by blast
qed









section \<open>Timer handles refer to timers\<close>

lemma handles_ok_fields [simp]:
  "handles_ok (s\<lparr>eventMap := m\<rparr>) = handles_ok s"
  "handles_ok (s\<lparr>callbackMap := c\<rparr>) = handles_ok s"
  "handles_ok (s\<lparr>sched_status := g\<rparr>) = handles_ok s"
  "handles_ok (s\<lparr>executing := x\<rparr>) = handles_ok s"
  by (simp_all add: handles_ok_def)

lemma handles_ok_timers:
  "handles_ok s \<Longrightarrow> length (timers s) \<le> length ts \<Longrightarrow> handles_ok (s\<lparr>timers := ts\<rparr>)"
  by (fastforce simp: handles_ok_def)

lemma handles_ok_modify:
  assumes "handles_ok s"
    and "\<And>e. jobId (g e) = jobId e \<or> jobId (g e) = None
             \<or> (\<exists>h < length (timers s). jobId (g e) = Some h)"
  shows "handles_ok (modify r g s)"
proof -
  have "\<And>e h. e \<in> set ((heap s)[r := g (heap s ! r)]) \<Longrightarrow> jobId e = Some h \<Longrightarrow>
          h < length (timers s)"
  proof -
    fix e h assume e: "e \<in> set ((heap s)[r := g (heap s ! r)])" and j: "jobId e = Some h"
    show "h < length (timers s)"
    proof (cases "r < length (heap s)")
      case False
      then show ?thesis using e j assms(1) by (simp add: handles_ok_def list_update_beyond)
    next
      case True
      from e have "e = g (heap s ! r) \<or> e \<in> set (heap s)"
        using set_update_subset_insert [of "heap s" r "g (heap s ! r)"] by auto
      then show ?thesis
      proof
        assume "e \<in> set (heap s)"
        then show ?thesis using j assms(1) by (simp add: handles_ok_def)
      next
        assume eg: "e = g (heap s ! r)"
        have "heap s ! r \<in> set (heap s)" using True by simp
        then have old: "\<And>h'. jobId (heap s ! r) = Some h' \<Longrightarrow> h' < length (timers s)"
          using assms(1) by (simp add: handles_ok_def)
        from assms(2) [of "heap s ! r"] show ?thesis using eg j old by auto
      qed
    qed
  qed
  then show ?thesis by (simp add: handles_ok_def modify_def)
qed

lemma handles_ok_clearTimeout: "handles_ok s \<Longrightarrow> handles_ok (clearTimeout h s)"
  by (simp add: clearTimeout_def handles_ok_timers)

lemma handles_ok_removeEvent: "handles_ok s \<Longrightarrow> handles_ok (removeEvent i s)"
  by (simp add: handles_ok_def)

lemma handles_ok_setTimeout:
  "handles_ok s \<Longrightarrow> handles_ok (snd (setTimeout r d s))"
  by (simp add: setTimeout_def handles_ok_timers)

lemma handles_ok_scheduleEvent: "handles_ok s \<Longrightarrow> handles_ok (scheduleEvent r delay s)"
proof -
  assume h: "handles_ok s"
  define s1 where "s1 = (if map_of (eventMap s) (event_id (heap s ! r)) \<noteq> None
                then removeEvent (event_id (heap s ! r)) s else s)"
  define s2 where "s2 = (if remainingTime (heap s1 ! r) \<le> 0
                then modify r (\<lambda>e. e\<lparr>remainingTime := duration e\<rparr>) s1 else s1)"
  define s3 where "s3 = (if sched_status s2 = Paused
                then modify r (\<lambda>e. e\<lparr>status := Paused\<rparr>) s2
                else (let s4 = modify r (\<lambda>e. e\<lparr>status := Scheduled\<rparr>) s2;
                          (h, s5) = setTimeout r
                             (case delay of Some d \<Rightarrow> d | None \<Rightarrow> remainingTime (heap s2 ! r)) s4
                      in modify r (\<lambda>e. e\<lparr>jobId := Some h\<rparr>) s5))"
  have 1: "handles_ok s1" unfolding s1_def using h by (simp add: handles_ok_removeEvent)
  have 2: "handles_ok s2" unfolding s2_def using 1 by (simp add: handles_ok_modify)
  have 3: "handles_ok s3"
  proof (cases "sched_status s2 = Paused")
    case True
    then show ?thesis unfolding s3_def using 2 by (simp add: handles_ok_modify)
  next
    case False
    have a: "handles_ok (modify r (\<lambda>e. e\<lparr>status := Scheduled\<rparr>) s2)"
      using 2 by (simp add: handles_ok_modify)
    show ?thesis unfolding s3_def using False
      by (simp add: Let_def setTimeout_def)
         (rule handles_ok_modify, rule handles_ok_timers, rule a, simp, simp)
  qed
  have "scheduleEvent r delay s = s3\<lparr>eventMap := AList.update (event_id (heap s3 ! r)) r (eventMap s3)\<rparr>"
    unfolding scheduleEvent_def s1_def s2_def s3_def Let_def by (rule refl)
  then show ?thesis using 3 by simp
qed

lemma handles_ok_alloc: "handles_ok s \<Longrightarrow> jobId e = None \<Longrightarrow> handles_ok (s\<lparr>heap := heap s @ [e]\<rparr>)"
  by (auto simp: handles_ok_def)

lemma handles_ok_addEvent: "handles_ok s \<Longrightarrow> handles_ok (snd (addEvent now i name ps d rep s))"
  by (simp add: addEvent_def allocate_def handles_ok_scheduleEvent handles_ok_alloc)

lemma handles_ok_pauseEvent: "handles_ok s \<Longrightarrow> handles_ok (pauseEvent now i s)"
  by (simp add: pauseEvent_def handles_ok_modify handles_ok_clearTimeout split: option.splits)

lemma handles_ok_resumeEvent: "handles_ok s \<Longrightarrow> handles_ok (resumeEvent now i s)"
  by (simp add: resumeEvent_def Let_def handles_ok_modify handles_ok_scheduleEvent
      split: option.splits)

lemma handles_ok_pauseAll: "handles_ok s \<Longrightarrow> handles_ok (pauseAll clock s)"
  unfolding pauseAll_def by (rule fold_preserves) (rule handles_ok_pauseEvent)

lemma handles_ok_removeAllByType: "handles_ok s \<Longrightarrow> handles_ok (removeAllByType ty s)"
  unfolding removeAllByType_def by (rule fold_preserves) (rule handles_ok_removeEvent)

lemma handles_ok_resumeAll_uninterrupted:
  "handles_ok s \<Longrightarrow> handles_ok (resumeAll_uninterrupted clock s)"
  unfolding resumeAll_uninterrupted_def Let_def
  by (rule fold_preserves) (simp_all add: handles_ok_resumeEvent)

lemma handles_ok_runEvent_begin: "handles_ok s \<Longrightarrow> handles_ok (snd (runEvent_begin r s))"
  by (simp add: runEvent_begin_def handles_ok_modify)

lemma handles_ok_executeImmediately:
  "handles_ok s \<Longrightarrow> handles_ok (snd (executeImmediately i s))"
  by (simp add: executeImmediately_def Let_def handles_ok_runEvent_begin handles_ok_modify
      handles_ok_clearTimeout split: option.splits)

lemma handles_ok_runEvent_finish:
  "handles_ok s \<Longrightarrow> handles_ok (snd (runEvent_finish now r s))"
  by (simp add: snd_runEvent_finish Let_def handles_ok_addEvent handles_ok_removeEvent
      handles_ok_modify)

lemma handles_ok_load_record:
  "handles_ok s \<Longrightarrow> load_record j s = Some (res, s1) \<Longrightarrow> handles_ok s1"
  by (auto simp: load_record_def allocate_def handles_ok_scheduleEvent handles_ok_alloc
      split: if_splits option.splits)

lemma handles_ok_load_records:
  "handles_ok s \<Longrightarrow> load_records js s = Some (res, s1) \<Longrightarrow> handles_ok s1"
  by (induction js arbitrary: s)
     (auto split: option.splits sum.splits dest: handles_ok_load_record)

lemma handles_ok_loadEvents:
  "handles_ok s \<Longrightarrow> loadEvents data s = Some (res, s1) \<Longrightarrow> handles_ok s1"
  by (auto simp: loadEvents_def split: option.splits jsvalue.splits dest: handles_ok_load_records)

lemma handles_ok_fire:
  "handles_ok s \<Longrightarrow> handles_ok (snd (runEvent_begin r (s\<lparr>timers := (timers s)[h := None]\<rparr>)))"
  by (rule handles_ok_runEvent_begin) (simp add: handles_ok_timers)

lemma handles_ok_step: "handles_ok s \<Longrightarrow> step a s = Some s1 \<Longrightarrow> handles_ok s1"
  by (cases a)
     (auto simp: registerCallback_def resumeAll_begin_def
        split: if_splits option.splits
        intro: handles_ok_addEvent handles_ok_removeEvent handles_ok_pauseEvent
          handles_ok_resumeEvent handles_ok_pauseAll handles_ok_resumeAll_uninterrupted
          handles_ok_removeAllByType handles_ok_executeImmediately handles_ok_runEvent_begin
          handles_ok_runEvent_finish handles_ok_fire
        dest: handles_ok_loadEvents)

lemma handles_ok_exec: "handles_ok s \<Longrightarrow> exec acts s = Some s1 \<Longrightarrow> handles_ok s1"
  by (induction acts arbitrary: s) (auto split: option.splits dest: handles_ok_step)

lemma reachable_handles: "exec acts init = Some s \<Longrightarrow> handles_ok s"
  by (rule handles_ok_exec [of init]) (simp_all add: handles_ok_def init_def)

section \<open>Saving and loading\<close>

lemma status_of_name_name [simp]: "status_of_name (status_name st) = Some st"
  by (cases st) (simp_all add: status_of_name_def)

lemma status_name_eq [simp]:
  "status_name st = ''scheduled'' \<longleftrightarrow> st = Scheduled"
  "status_name st = ''paused'' \<longleftrightarrow> st = Paused"
  by (cases st; simp)+

lemma event_of_json_of_event:
  "event_of_json (json_of_event e) = Some ((reparsed e)\<lparr>jobId := None\<rparr>)"
  by (cases e) (simp add: event_of_json_def json_of_event_def get_str_def get_num_def
      get_bool_def json_field_def reparsed_def)

lemma reparsed_simps [simp]:
  "event_id (reparsed e) = event_id e"
  "lookupName (reparsed e) = lookupName e"
  "status (reparsed e) = status e"
  "addedAtTime (reparsed e) = addedAtTime e"
  "remainingTime (reparsed e) = remainingTime e"
  "duration (reparsed e) = duration e"
  "autoRepeat (reparsed e) = autoRepeat e"
  "jobId (reparsed e) = jobId e"
  by (simp_all add: reparsed_def)

lemma restorable_reparsed [simp]: "restorable (reparsed e) = restorable e"
  by (simp add: restorable_def)

lemma restored_as_reparsed [simp]: "restored_as g (reparsed e) e' = restored_as g e e'"
  by (simp add: restored_as_def)

lemma json_field_status:
  "json_field (json_of_event e) ''status'' = Some (JStr (status_name (status e)))"
  by (simp add: json_of_event_def json_field_def)

lemma json_field_remainingTime:
  "json_field (json_of_event e) ''remainingTime'' = Some (JNum (remainingTime e))"
  by (simp add: json_of_event_def json_field_def)

lemma load_record_encoded:
  "load_record (json_of_event e) t = Some (Inr (), restore (reparsed e) t)"
  unfolding load_record_def restore_def
  by (simp add: event_of_json_of_event allocate_def json_field_status
      json_field_remainingTime restorable_def)

lemma load_records_encoded:
  "load_records (map json_of_event evs) t = Some (Inr (), fold restore (map reparsed evs) t)"
  by (induction evs arbitrary: t) (simp_all add: load_record_encoded)

lemma restore_skip: "\<not> restorable e \<Longrightarrow> restore e t = t"
  by (simp add: restore_def)

lemma restore_effect:
  assumes inv: "sched_inv False t" and re: "restorable e"
  shows "sched_inv False (restore e t)"
    and "sched_status (restore e t) = sched_status t"
    and "length (heap (restore e t)) = Suc (length (heap t))"
    and "\<And>b. b < length (heap t) \<Longrightarrow> heap (restore e t) ! b = heap t ! b"
    and "restored_as (sched_status t) e (heap (restore e t) ! length (heap t))"
    and "map_of (eventMap (restore e t)) (event_id e) = Some (length (heap t))"
    and "\<And>k. k \<noteq> event_id e \<Longrightarrow> map_of (eventMap (restore e t)) k = map_of (eventMap t) k"
proof -
  let ?t0 = "t\<lparr>heap := heap t @ [e\<lparr>jobId := None\<rparr>]\<rparr>"
  have r: "length (heap t) < length (heap ?t0)" by simp
  have res: "restore e t = scheduleEvent (length (heap t)) (Some (remainingTime e)) ?t0"
    using re by (simp add: restore_def)
  show "sched_inv False (restore e t)"
    unfolding res using inv by (intro sched_inv_schedule_new) simp_all
  show "sched_status (restore e t) = sched_status t" unfolding res by simp
  show "length (heap (restore e t)) = Suc (length (heap t))" unfolding res by simp
  show "\<And>b. b < length (heap t) \<Longrightarrow> heap (restore e t) ! b = heap t ! b"
    unfolding res by (simp add: scheduleEvent_simps(1) [OF r] nth_append)
  show "restored_as (sched_status t) e (heap (restore e t) ! length (heap t))"
    unfolding res by (simp add: scheduleEvent_simps(1) [OF r] restored_as_def)
  show "map_of (eventMap (restore e t)) (event_id e) = Some (length (heap t))"
    unfolding res by (simp add: scheduleEvent_simps(3) [OF r] AList.update_conv')
  show "\<And>k. k \<noteq> event_id e \<Longrightarrow> map_of (eventMap (restore e t)) k = map_of (eventMap t) k"
    unfolding res
    by (simp add: scheduleEvent_simps(3) [OF r] AList.update_conv' AList.delete_conv')
qed

lemma restore_fold:
  assumes "sched_inv False t" and "distinct (map event_id evs)"
  shows "sched_status (fold restore evs t) = sched_status t
    \<and> length (heap t) \<le> length (heap (fold restore evs t))
    \<and> (\<forall>b < length (heap t). heap (fold restore evs t) ! b = heap t ! b)
    \<and> (\<forall>e \<in> set evs. restorable e \<longrightarrow>
          (\<exists>r. map_of (eventMap (fold restore evs t)) (event_id e) = Some r
               \<and> restored_as (sched_status t) e (heap (fold restore evs t) ! r)))
    \<and> (\<forall>k. (\<forall>e \<in> set evs. event_id e = k \<longrightarrow> \<not> restorable e) \<longrightarrow>
          map_of (eventMap (fold restore evs t)) k = map_of (eventMap t) k)"
  using assms
proof (induction evs arbitrary: t)
  case Nil
  then show ?case by simp
next
  case (Cons e evs)
  define t1 where "t1 = restore e t"
  define t2 where "t2 = fold restore evs t1"
  have t2: "fold restore (e # evs) t = t2" by (simp add: t1_def t2_def)
  have d: "distinct (map event_id evs)" using Cons.prems(2) by simp
  have fresh: "\<And>e'. e' \<in> set evs \<Longrightarrow> event_id e' \<noteq> event_id e"
    using Cons.prems(2) by (auto simp: image_iff)
  have inv1: "sched_inv False t1"
    unfolding t1_def using Cons.prems(1) restore_effect(1) [of t e] restore_skip [of e t]
    by (cases "restorable e") simp_all
  have st1: "sched_status t1 = sched_status t"
    unfolding t1_def using Cons.prems(1) restore_effect(2) [of t e] restore_skip [of e t]
    by (cases "restorable e") simp_all
  have len1: "length (heap t) \<le> length (heap t1)"
    unfolding t1_def using Cons.prems(1) restore_effect(3) [of t e] restore_skip [of e t]
    by (cases "restorable e") simp_all
  have old1: "\<And>b. b < length (heap t) \<Longrightarrow> heap t1 ! b = heap t ! b"
    unfolding t1_def using Cons.prems(1) restore_effect(4) [of t e] restore_skip [of e t]
    by (cases "restorable e") simp_all
  have other1: "\<And>k. k \<noteq> event_id e \<or> \<not> restorable e \<Longrightarrow>
                  map_of (eventMap t1) k = map_of (eventMap t) k"
    unfolding t1_def using Cons.prems(1) restore_effect(7) [of t e] restore_skip [of e t]
    by (cases "restorable e") auto
  have IHa: "sched_status t2 = sched_status t1"
    and IHb: "length (heap t1) \<le> length (heap t2)"
    and IHc: "\<And>b. b < length (heap t1) \<Longrightarrow> heap t2 ! b = heap t1 ! b"
    and IHd: "\<And>e'. e' \<in> set evs \<Longrightarrow> restorable e' \<Longrightarrow>
          \<exists>r. map_of (eventMap t2) (event_id e') = Some r
               \<and> restored_as (sched_status t1) e' (heap t2 ! r)"
    and IHe: "\<And>k. (\<forall>e' \<in> set evs. event_id e' = k \<longrightarrow> \<not> restorable e') \<Longrightarrow>
          map_of (eventMap t2) k = map_of (eventMap t1) k"
    using Cons.IH [OF inv1 d] unfolding t2_def by blast+
  have 1: "sched_status t2 = sched_status t" using IHa st1 by simp
  have 2: "length (heap t) \<le> length (heap t2)" using IHb len1 by simp
  have 3: "\<forall>b < length (heap t). heap t2 ! b = heap t ! b"
    using IHc old1 len1 by simp
  have 4: "\<forall>e' \<in> set (e # evs). restorable e' \<longrightarrow>
          (\<exists>r. map_of (eventMap t2) (event_id e') = Some r
               \<and> restored_as (sched_status t) e' (heap t2 ! r))"
  proof (intro ballI impI)
    fix e' assume m: "e' \<in> set (e # evs)" and re: "restorable e'"
    show "\<exists>r. map_of (eventMap t2) (event_id e') = Some r
               \<and> restored_as (sched_status t) e' (heap t2 ! r)"
    proof (cases "e' \<in> set evs")
      case True
      then show ?thesis using IHd [OF True re] st1 by simp
    next
      case False
      with m have ee: "e' = e" by simp
      have a: "map_of (eventMap t1) (event_id e) = Some (length (heap t))"
        and b: "restored_as (sched_status t) e (heap t1 ! length (heap t))"
        and c: "length (heap t1) = Suc (length (heap t))"
        unfolding t1_def using restore_effect [OF Cons.prems(1)] re ee by auto
      have "map_of (eventMap t2) (event_id e) = map_of (eventMap t1) (event_id e)"
        using fresh by (intro IHe) auto
      moreover have "heap t2 ! length (heap t) = heap t1 ! length (heap t)"
        using c by (intro IHc) simp
      ultimately show ?thesis using a b ee by simp
    qed
  qed
  have 5: "\<forall>k. (\<forall>e' \<in> set (e # evs). event_id e' = k \<longrightarrow> \<not> restorable e') \<longrightarrow>
          map_of (eventMap t2) k = map_of (eventMap t) k"
  proof (intro allI impI)
    fix k assume h: "\<forall>e' \<in> set (e # evs). event_id e' = k \<longrightarrow> \<not> restorable e'"
    then have "map_of (eventMap t2) k = map_of (eventMap t1) k" by (intro IHe) simp
    moreover have "map_of (eventMap t1) k = map_of (eventMap t) k"
      using h by (intro other1) auto
    ultimately show "map_of (eventMap t2) k = map_of (eventMap t) k" by simp
  qed
  show ?case unfolding t2 by (rule conjI 1 2 3 4 5)+
qed

lemma restore_timers:
  assumes inv: "sched_inv False t" and hk: "handles_ok t" and re: "restorable e"
  shows "handles_ok (restore e t)"
    and "length (timers t) \<le> length (timers (restore e t))"
    and "sched_status t \<noteq> Paused \<Longrightarrow>
           jobId (heap (restore e t) ! length (heap t)) = Some (length (timers t))"
    and "sched_status t \<noteq> Paused \<Longrightarrow>
           length (timers t) < length (timers (restore e t))
           \<and> timers (restore e t) ! length (timers t) = Some (length (heap t), remainingTime e)"
    and "\<And>h. h < length (timers t) \<Longrightarrow>
           (\<And>r. map_of (eventMap t) (event_id e) = Some r \<Longrightarrow> jobId (heap t ! r) \<noteq> Some h) \<Longrightarrow>
           timers (restore e t) ! h = timers t ! h"
proof -
  let ?t0 = "t\<lparr>heap := heap t @ [e\<lparr>jobId := None\<rparr>]\<rparr>"
  have r: "length (heap t) < length (heap ?t0)" by simp
  have res: "restore e t = scheduleEvent (length (heap t)) (Some (remainingTime e)) ?t0"
    using re by (simp add: restore_def)
  have tok: "table_ok t" using inv by (rule sched_inv_table_ok)
  have rem: "timers (removeEvent (event_id e) ?t0) = timers (removeEvent (event_id e) t)"
    using tok by (rule timers_removeEvent_alloc)
  have tm: "timers (restore e t) =
     (if sched_status t = Paused then timers (removeEvent (event_id e) t)
      else timers (removeEvent (event_id e) t) @ [Some (length (heap t), remainingTime e)])"
    unfolding res by (simp add: scheduleEvent_simps(2) [OF r] rem)
  show "handles_ok (restore e t)"
    unfolding res using hk by (intro handles_ok_scheduleEvent handles_ok_alloc) simp_all
  show "length (timers t) \<le> length (timers (restore e t))"
    by (simp add: tm)
  show "sched_status t \<noteq> Paused \<Longrightarrow>
           jobId (heap (restore e t) ! length (heap t)) = Some (length (timers t))"
    unfolding res by (simp add: scheduleEvent_simps(1) [OF r])
  show "sched_status t \<noteq> Paused \<Longrightarrow>
           length (timers t) < length (timers (restore e t))
           \<and> timers (restore e t) ! length (timers t) = Some (length (heap t), remainingTime e)"
    by (simp add: tm nth_append)
  show "\<And>h. h < length (timers t) \<Longrightarrow>
           (\<And>r. map_of (eventMap t) (event_id e) = Some r \<Longrightarrow> jobId (heap t ! r) \<noteq> Some h) \<Longrightarrow>
           timers (restore e t) ! h = timers t ! h"
  proof -
    fix h assume h: "h < length (timers t)"
      and no: "\<And>r. map_of (eventMap t) (event_id e) = Some r \<Longrightarrow> jobId (heap t ! r) \<noteq> Some h"
    have "timers (removeEvent (event_id e) t) ! h = timers t ! h"
    proof (cases "map_of (eventMap t) (event_id e)")
      case None
      then show ?thesis by (simp add: timers_removeEvent)
    next
      case (Some r0)
      from no [OF Some] show ?thesis using Some
        by (cases "jobId (heap t ! r0)") (simp_all add: timers_removeEvent)
    qed
    then show "timers (restore e t) ! h = timers t ! h"
      using h by (simp add: tm nth_append)
  qed
qed

lemma restore_fold_timers:
  assumes "sched_inv False t" and "handles_ok t" and "distinct (map event_id evs)"
  shows "length (timers t) \<le> length (timers (fold restore evs t))
    \<and> (\<forall>h < length (timers t).
          (\<forall>e \<in> set evs. restorable e \<longrightarrow>
             (\<forall>r. map_of (eventMap t) (event_id e) = Some r \<longrightarrow> jobId (heap t ! r) \<noteq> Some h))
          \<longrightarrow> timers (fold restore evs t) ! h = timers t ! h)
    \<and> (sched_status t \<noteq> Paused \<longrightarrow>
         (\<forall>e \<in> set evs. restorable e \<longrightarrow>
            (\<exists>r h. map_of (eventMap (fold restore evs t)) (event_id e) = Some r
                 \<and> jobId (heap (fold restore evs t) ! r) = Some h
                 \<and> h < length (timers (fold restore evs t))
                 \<and> timers (fold restore evs t) ! h = Some (r, remainingTime e))))"
  using assms
proof (induction evs arbitrary: t)
  case Nil
  then show ?case by simp
next
  case (Cons e evs)
  define t1 where "t1 = restore e t"
  define t2 where "t2 = fold restore evs t1"
  have t2: "fold restore (e # evs) t = t2" by (simp add: t1_def t2_def)
  have d: "distinct (map event_id evs)" using Cons.prems(3) by simp
  have fresh: "\<And>e'. e' \<in> set evs \<Longrightarrow> event_id e' \<noteq> event_id e"
    using Cons.prems(3) by (auto simp: image_iff)
  have tok: "table_ok t" using Cons.prems(1) by (rule sched_inv_table_ok)
  have inv1: "sched_inv False t1"
    unfolding t1_def using Cons.prems(1) restore_effect(1) [of t e] restore_skip [of e t]
    by (cases "restorable e") simp_all
  have hk1: "handles_ok t1"
    unfolding t1_def using Cons.prems(1,2) restore_timers(1) [of t e] restore_skip [of e t]
    by (cases "restorable e") simp_all
  have st1: "sched_status t1 = sched_status t"
    unfolding t1_def using Cons.prems(1) restore_effect(2) [of t e] restore_skip [of e t]
    by (cases "restorable e") simp_all
  have len1: "length (timers t) \<le> length (timers t1)"
    unfolding t1_def using Cons.prems(1,2) restore_timers(2) [of t e] restore_skip [of e t]
    by (cases "restorable e") simp_all
  have old1: "\<And>b. b < length (heap t) \<Longrightarrow> heap t1 ! b = heap t ! b"
    unfolding t1_def using Cons.prems(1) restore_effect(4) [of t e] restore_skip [of e t]
    by (cases "restorable e") simp_all
  have other1: "\<And>k. k \<noteq> event_id e \<Longrightarrow> map_of (eventMap t1) k = map_of (eventMap t) k"
    unfolding t1_def using Cons.prems(1) restore_effect(7) [of t e] restore_skip [of e t]
    by (cases "restorable e") auto
  have keep1: "\<And>h. h < length (timers t) \<Longrightarrow>
           (restorable e \<Longrightarrow> (\<And>r. map_of (eventMap t) (event_id e) = Some r \<Longrightarrow>
               jobId (heap t ! r) \<noteq> Some h)) \<Longrightarrow>
           timers t1 ! h = timers t ! h"
    unfolding t1_def using Cons.prems(1,2) restore_timers(5) [of t e] restore_skip [of e t]
    by (cases "restorable e") simp_all
  note IH = Cons.IH [OF inv1 hk1 d, folded t2_def]
  have IHa: "length (timers t1) \<le> length (timers t2)" using IH by simp
  have IHb: "\<And>h. h < length (timers t1) \<Longrightarrow>
          (\<And>e' r. e' \<in> set evs \<Longrightarrow> restorable e' \<Longrightarrow>
              map_of (eventMap t1) (event_id e') = Some r \<Longrightarrow> jobId (heap t1 ! r) \<noteq> Some h)
          \<Longrightarrow> timers t2 ! h = timers t1 ! h"
    using IH by blast
  have IHc: "\<And>e'. sched_status t1 \<noteq> Paused \<Longrightarrow> e' \<in> set evs \<Longrightarrow> restorable e' \<Longrightarrow>
            \<exists>r h. map_of (eventMap t2) (event_id e') = Some r
                 \<and> jobId (heap t2 ! r) = Some h
                 \<and> h < length (timers t2)
                 \<and> timers t2 ! h = Some (r, remainingTime e')"
    using IH by blast
  note rf = restore_fold [OF inv1 d, folded t2_def]
  have rfc: "\<And>b. b < length (heap t1) \<Longrightarrow> heap t2 ! b = heap t1 ! b" using rf by blast
  have rfe: "\<And>k. (\<forall>e' \<in> set evs. event_id e' = k \<longrightarrow> \<not> restorable e') \<Longrightarrow>
          map_of (eventMap t2) k = map_of (eventMap t1) k"
    using rf by blast
  have entry: "\<And>e' r. e' \<in> set evs \<Longrightarrow> map_of (eventMap t1) (event_id e') = Some r \<Longrightarrow>
                 map_of (eventMap t) (event_id e') = Some r \<and> r < length (heap t)
                 \<and> heap t1 ! r = heap t ! r"
  proof -
    fix e' r assume m: "e' \<in> set evs" and r: "map_of (eventMap t1) (event_id e') = Some r"
    have a: "map_of (eventMap t) (event_id e') = Some r"
      using other1 [OF fresh [OF m]] r by simp
    then have "(event_id e', r) \<in> set (eventMap t)" by (rule map_of_SomeD)
    then have b: "r < length (heap t)" using tok by (auto simp: table_ok_def)
    show "map_of (eventMap t) (event_id e') = Some r \<and> r < length (heap t)
                 \<and> heap t1 ! r = heap t ! r"
      using a b old1 [OF b] by simp
  qed
  have 1: "length (timers t) \<le> length (timers t2)" using len1 IHa by simp
  have 2: "\<forall>h < length (timers t).
          (\<forall>e' \<in> set (e # evs). restorable e' \<longrightarrow>
             (\<forall>r. map_of (eventMap t) (event_id e') = Some r \<longrightarrow> jobId (heap t ! r) \<noteq> Some h))
          \<longrightarrow> timers t2 ! h = timers t ! h"
  proof (intro allI impI)
    fix h assume h: "h < length (timers t)"
      and no: "\<forall>e' \<in> set (e # evs). restorable e' \<longrightarrow>
             (\<forall>r. map_of (eventMap t) (event_id e') = Some r \<longrightarrow> jobId (heap t ! r) \<noteq> Some h)"
    have a: "timers t1 ! h = timers t ! h"
      using h no by (intro keep1) auto
    have b: "timers t2 ! h = timers t1 ! h"
    proof (rule IHb)
      show "h < length (timers t1)" using h len1 by simp
    next
      fix e' r assume m: "e' \<in> set evs" and re': "restorable e'"
        and r: "map_of (eventMap t1) (event_id e') = Some r"
      from entry [OF m r] no m re' show "jobId (heap t1 ! r) \<noteq> Some h" by auto
    qed
    show "timers t2 ! h = timers t ! h" using a b by simp
  qed
  have 3: "sched_status t \<noteq> Paused \<longrightarrow>
         (\<forall>e' \<in> set (e # evs). restorable e' \<longrightarrow>
            (\<exists>r h. map_of (eventMap t2) (event_id e') = Some r
                 \<and> jobId (heap t2 ! r) = Some h
                 \<and> h < length (timers t2)
                 \<and> timers t2 ! h = Some (r, remainingTime e')))"
  proof (intro impI ballI)
    fix e' assume act: "sched_status t \<noteq> Paused" and m: "e' \<in> set (e # evs)"
      and re': "restorable e'"
    show "\<exists>r h. map_of (eventMap t2) (event_id e') = Some r
                 \<and> jobId (heap t2 ! r) = Some h
                 \<and> h < length (timers t2)
                 \<and> timers t2 ! h = Some (r, remainingTime e')"
    proof (cases "e' \<in> set evs")
      case True
      then show ?thesis using IHc [of e'] act st1 re' by simp
    next
      case False
      with m have ee: "e' = e" by simp
      have re: "restorable e" using re' ee by simp
      have t1r: "t1 = restore e t" by (simp add: t1_def)
      have a: "map_of (eventMap t1) (event_id e) = Some (length (heap t))"
        unfolding t1r using restore_effect(6) [OF Cons.prems(1) re] .
      have c: "length (heap t1) = Suc (length (heap t))"
        unfolding t1r using restore_effect(3) [OF Cons.prems(1) re] .
      have j: "jobId (heap t1 ! length (heap t)) = Some (length (timers t))"
        unfolding t1r using restore_timers(3) [OF Cons.prems(1,2) re act] .
      have tm: "length (timers t) < length (timers t1)
           \<and> timers t1 ! length (timers t) = Some (length (heap t), remainingTime e)"
        unfolding t1r using restore_timers(4) [OF Cons.prems(1,2) re act] .
      have m2: "map_of (eventMap t2) (event_id e) = Some (length (heap t))"
        using rfe [of "event_id e"] fresh a by auto
      have h2: "heap t2 ! length (heap t) = heap t1 ! length (heap t)"
        using c by (intro rfc) simp
      have k2: "timers t2 ! length (timers t) = timers t1 ! length (timers t)"
      proof (rule IHb)
        show "length (timers t) < length (timers t1)" using tm by simp
      next
        fix e'' r assume m'': "e'' \<in> set evs" and "restorable e''"
          and r: "map_of (eventMap t1) (event_id e'') = Some r"
        from entry [OF m'' r] have rl: "r < length (heap t)" and eq: "heap t1 ! r = heap t ! r"
          by simp_all
        have "heap t ! r \<in> set (heap t)" using rl by simp
        then have "\<And>h. jobId (heap t ! r) = Some h \<Longrightarrow> h < length (timers t)"
          using Cons.prems(2) by (simp add: handles_ok_def)
        then show "jobId (heap t1 ! r) \<noteq> Some (length (timers t))"
          unfolding eq by (metis less_irrefl)
      qed
      have "map_of (eventMap t2) (event_id e) = Some (length (heap t))
                 \<and> jobId (heap t2 ! length (heap t)) = Some (length (timers t))
                 \<and> length (timers t) < length (timers t2)
                 \<and> timers t2 ! length (timers t) = Some (length (heap t), remainingTime e)"
        using m2 h2 j k2 tm IHa by simp
      then show ?thesis unfolding ee by blast
    qed
  qed
  show ?case unfolding t2 by (rule conjI 1 2 3)+
qed

lemma demo_active_run: "exec [RegisterCallback ''ping'', ResumeAll (\<lambda>_. 0)] init = Some demo_active"
  by (simp add: demo_active_def demo_registered_def)

text \<open>
  Claim C2, as stated, fails in the status and in the remaining time, and where the
  events cannot be saved. Saved from and loaded into the same active scheduler, the
  paused event \<^verbatim>\<open>"e1"\<close> comes back scheduled; loaded into a new scheduler, which is
  globally paused, the scheduled event \<^verbatim>\<open>"e2"\<close> comes back paused; a paused event
  saved with the remaining time \<open>-50\<close> comes back with 100, its duration; and with
  a scheduled event whose \<open>params\<close> is a \<^verbatim>\<open>BigInt\<close>, \<open>saveEvents\<close>
  throws and nothing is restored.
\<close>

theorem roundtrip_counterexample:
  "map status (heap demo_mixed) = [Paused, Scheduled]
   \<and> eventMap demo_mixed = [(''e1'', 0), (''e2'', 1)]
   \<and> map_option (eventMap \<circ> snd) (load_saved demo_mixed demo_mixed)
       = Some [(''e1'', 2), (''e2'', 3)]
   \<and> map_option (map status \<circ> heap \<circ> snd) (load_saved demo_mixed demo_mixed)
       = Some [Paused, Scheduled, Scheduled, Scheduled]
   \<and> map_option (map status \<circ> heap \<circ> snd) (load_saved demo_mixed init)
       = Some [Paused, Paused]
   \<and> map status (heap (pauseEvent 150 ''e1'' demo_scheduled)) = [Paused]
   \<and> map remainingTime (heap (pauseEvent 150 ''e1'' demo_scheduled)) = [-50]
   \<and> map_option (map remainingTime \<circ> heap \<circ> snd)
        (load_saved (pauseEvent 150 ''e1'' demo_scheduled) init)
       = Some [100]
   \<and> map status (heap (snd (addEvent 0 ''e1'' ''ping'' (JBigInt 1) 100 False demo_active)))
       = [Scheduled]
   \<and> load_saved (snd (addEvent 0 ''e1'' ''ping'' (JBigInt 1) 100 False demo_active)) init
       = Some (Inl TypeError, init)"
  by (simp add: demo_mixed_def demo_scheduled_eq demo_active_eq op_defs json_defs)

text \<open>
  Claim C2, amended. Let \<open>s\<close> and \<open>t\<close> be reachable schedulers (the same
  one, a new one, or any other), where \<open>saveEvents\<close> does not throw on \<open>s\<close>
  (no event has \<open>params\<close> that \<^verbatim>\<open>JSON.stringify\<close> rejects). Then loading
  into \<open>t\<close> what \<open>saveEvents\<close> returns for \<open>s\<close> succeeds. Every event of \<open>s\<close> whose
  status is \<open>Scheduled\<close> or \<open>Paused\<close> is then stored under its id with the
  same handler name, \<open>addedAtTime\<close>, duration and \<open>autoRepeat\<close>; its status
  is \<open>Paused\<close> if \<open>t\<close> is globally paused and \<open>Scheduled\<close> otherwise;
  its \<open>remainingTime\<close> is the saved one if that is positive and the duration
  otherwise; it has a timer handle iff \<open>t\<close> is not globally paused, and then the
  handle is that of a pending timer for the stored object, whose delay is the saved
  \<open>remainingTime\<close> if that is positive. For an event of \<open>s\<close> with any other
  status nothing is stored: its id refers to what it referred to in \<open>t\<close>.
\<close>

theorem roundtrip_restores:
  assumes "exec acts init = Some s" and "exec acts1 init = Some t"
    and "saveEvents s \<noteq> Inl TypeError"
  shows "\<exists>t1. load_saved s t = Some (Inr (), t1)
    \<and> (\<forall>(k, r) \<in> set (eventMap s).
          if status (heap s ! r) = Scheduled \<or> status (heap s ! r) = Paused
          then \<exists>r1. map_of (eventMap t1) k = Some r1
                 \<and> restored_as (sched_status t) (heap s ! r) (heap t1 ! r1)
                 \<and> (sched_status t \<noteq> Paused \<longrightarrow>
                      (\<exists>h d. jobId (heap t1 ! r1) = Some h \<and> h < length (timers t1)
                           \<and> timers t1 ! h = Some (r1, d)
                           \<and> (0 < remainingTime (heap s ! r)
                                \<longrightarrow> d = remainingTime (heap s ! r))))
          else map_of (eventMap t1) k = map_of (eventMap t) k)"
proof -
  define evs where "evs = map (\<lambda>(k, r). reparsed (heap s ! r)) (eventMap s)"
  define t1 where "t1 = fold restore evs t"
  have invs: "sched_inv False s" using assms(1) by (rule reachable_inv)
  have invt: "sched_inv False t" using assms(2) by (rule reachable_inv)
  have hkt: "handles_ok t" using assms(2) by (rule reachable_handles)
  have key: "\<And>k r. (k, r) \<in> set (eventMap s) \<Longrightarrow> event_id (heap s ! r) = k"
    using invs by (auto simp: sched_inv_def frame_ok_def)
  have ids: "map event_id evs = map fst (eventMap s)"
    unfolding evs_def using key by (auto simp: map_idI)
  have dist: "distinct (map event_id evs)"
    unfolding ids using invs by (simp add: sched_inv_def frame_ok_def)
  have nothrow: "\<not> list_ex (\<lambda>(i, r). json_throws (params (heap s ! r))) (eventMap s)"
    using assms(3) by (auto simp: saveEvents_def)
  define evs0 where "evs0 = map (\<lambda>(k, r). heap s ! r) (eventMap s)"
  have evs: "evs = map reparsed evs0"
    by (simp add: evs_def evs0_def comp_def case_prod_beta)
  have save: "saveEvents s = Inr (JArr (map json_of_event evs0))"
    using nothrow by (simp add: saveEvents_def evs0_def comp_def case_prod_beta)
  have load: "load_saved s t = Some (Inr (), t1)"
    unfolding load_saved_def save t1_def evs
    by (simp add: loadEvents_def load_records_encoded)
  note rf = restore_fold [OF invt dist, folded t1_def]
  note rt = restore_fold_timers [OF invt hkt dist, folded t1_def]
  have "\<forall>(k, r) \<in> set (eventMap s).
          if status (heap s ! r) = Scheduled \<or> status (heap s ! r) = Paused
          then \<exists>r1. map_of (eventMap t1) k = Some r1
                 \<and> restored_as (sched_status t) (heap s ! r) (heap t1 ! r1)
                 \<and> (sched_status t \<noteq> Paused \<longrightarrow>
                      (\<exists>h d. jobId (heap t1 ! r1) = Some h \<and> h < length (timers t1)
                           \<and> timers t1 ! h = Some (r1, d)
                           \<and> (0 < remainingTime (heap s ! r)
                                \<longrightarrow> d = remainingTime (heap s ! r))))
          else map_of (eventMap t1) k = map_of (eventMap t) k"
  proof (clarify)
    fix k r assume m: "(k, r) \<in> set (eventMap s)"
    have id: "event_id (heap s ! r) = k" using m by (rule key)
    have mem: "reparsed (heap s ! r) \<in> set evs" unfolding evs_def using m by force
    show "if status (heap s ! r) = Scheduled \<or> status (heap s ! r) = Paused
          then \<exists>r1. map_of (eventMap t1) k = Some r1
                 \<and> restored_as (sched_status t) (heap s ! r) (heap t1 ! r1)
                 \<and> (sched_status t \<noteq> Paused \<longrightarrow>
                      (\<exists>h d. jobId (heap t1 ! r1) = Some h \<and> h < length (timers t1)
                           \<and> timers t1 ! h = Some (r1, d)
                           \<and> (0 < remainingTime (heap s ! r)
                                \<longrightarrow> d = remainingTime (heap s ! r))))
          else map_of (eventMap t1) k = map_of (eventMap t) k"
    proof (cases "restorable (heap s ! r)")
      case True
      then have re: "restorable (reparsed (heap s ! r))" by simp
      from rf mem re obtain r1 where r1: "map_of (eventMap t1) (event_id (reparsed (heap s ! r))) = Some r1"
        and ra: "restored_as (sched_status t) (reparsed (heap s ! r)) (heap t1 ! r1)"
        by blast
      have tmr: "sched_status t \<noteq> Paused \<longrightarrow>
                      (\<exists>h d. jobId (heap t1 ! r1) = Some h \<and> h < length (timers t1)
                           \<and> timers t1 ! h = Some (r1, d)
                           \<and> (0 < remainingTime (heap s ! r)
                                \<longrightarrow> d = remainingTime (heap s ! r)))"
      proof
        assume act: "sched_status t \<noteq> Paused"
        from rt act mem re obtain r2 h
          where r2: "map_of (eventMap t1) (event_id (reparsed (heap s ! r))) = Some r2"
            and j: "jobId (heap t1 ! r2) = Some h" and hl: "h < length (timers t1)"
            and tm: "timers t1 ! h = Some (r2, remainingTime (reparsed (heap s ! r)))"
          by blast
        from r1 r2 have "r2 = r1" by simp
        with j hl tm show "\<exists>h d. jobId (heap t1 ! r1) = Some h \<and> h < length (timers t1)
                           \<and> timers t1 ! h = Some (r1, d)
                           \<and> (0 < remainingTime (heap s ! r)
                                \<longrightarrow> d = remainingTime (heap s ! r))"
          by auto
      qed
      show ?thesis using True r1 ra tmr id by (simp add: restorable_def)
    next
      case False
      have "\<forall>e \<in> set evs. event_id e = k \<longrightarrow> \<not> restorable e"
      proof (intro ballI impI)
        fix e assume e: "e \<in> set evs" and ek: "event_id e = k"
        then obtain k' r' where m': "(k', r') \<in> set (eventMap s)"
          and e': "e = reparsed (heap s ! r')"
          unfolding evs_def by auto
        have "k' = k" using key [OF m'] ek e' by simp
        have dk: "distinct (map fst (eventMap s))"
          using invs by (simp add: sched_inv_def frame_ok_def)
        have "map_of (eventMap s) k = Some r" using dk m by (rule map_of_is_SomeI)
        moreover have "map_of (eventMap s) k = Some r'"
          using dk m' \<open>k' = k\<close> by (auto intro: map_of_is_SomeI)
        ultimately have "r' = r" by simp
        then show "\<not> restorable e" using False e' by simp
      qed
      then have "map_of (eventMap t1) k = map_of (eventMap t) k"
        using rf by blast
      then show ?thesis using False by (simp add: restorable_def)
    qed
  qed
  with load show ?thesis by blast
qed

lemma demo_mixed_saves: "saveEvents demo_mixed \<noteq> Inl TypeError"
  by (simp add: demo_mixed_def saveEvents_def)

theorem roundtrip_restores_witness:
  "exec [RegisterCallback ''ping'', ResumeAll (\<lambda>_. 0),
         AddEvent 0 ''e1'' ''ping'' (JObj []) 100 False,
         AddEvent 0 ''e2'' ''ping'' (JObj []) 200 False,
         PauseEvent 30 ''e1''] init = Some demo_mixed
   \<and> exec [RegisterCallback ''ping'', ResumeAll (\<lambda>_. 0)] init = Some demo_active
   \<and> saveEvents demo_mixed \<noteq> Inl TypeError
   \<and> (\<exists>t1. load_saved demo_mixed demo_active = Some (Inr (), t1)
    \<and> (\<forall>(k, r) \<in> set (eventMap demo_mixed).
          if status (heap demo_mixed ! r) = Scheduled \<or> status (heap demo_mixed ! r) = Paused
          then \<exists>r1. map_of (eventMap t1) k = Some r1
                 \<and> restored_as (sched_status demo_active) (heap demo_mixed ! r) (heap t1 ! r1)
                 \<and> (sched_status demo_active \<noteq> Paused \<longrightarrow>
                      (\<exists>h d. jobId (heap t1 ! r1) = Some h \<and> h < length (timers t1)
                           \<and> timers t1 ! h = Some (r1, d)
                           \<and> (0 < remainingTime (heap demo_mixed ! r)
                                \<longrightarrow> d = remainingTime (heap demo_mixed ! r))))
          else map_of (eventMap t1) k = map_of (eventMap demo_active) k))"
  by (rule conjI [OF demo_mixed_run conjI [OF demo_active_run conjI [OF demo_mixed_saves
        roundtrip_restores [OF demo_mixed_run demo_active_run demo_mixed_saves]]]])

end
